theory Spec2Isabelle
  imports Complex_Main
begin

section \<open>Exceptions\<close>

text \<open>
  The Python exceptions the modelled functions can raise. A function that can raise
  returns \<open>error + 'a\<close>, with \<open>Inl\<close> for the exception.
\<close>

datatype error = ZeroDivisionError | IndexError | ValueError | TypeError

section \<open>The exact binomial interval (\<open>binomial_proportion\<close>, \<open>binomial_proportion_ci\<close>)\<close>

text \<open>
  Python floats are modelled as exact reals: the recurrence, the rescaling by
  \<open>10**30\<close> and the bisection are evaluated without rounding. Float division
  raises \<open>ZeroDivisionError\<close> on a zero divisor, which \<open>fdiv\<close> makes explicit.
\<close>

definition fdiv :: "real \<Rightarrow> real \<Rightarrow> error + real" where
  "fdiv a b = (if b = 0 then Inl ZeroDivisionError else Inr (a / b))"

text \<open>
  The body of \<open>while(k<=N)\<close> in \<open>binomial_proportion\<close>, on the loop variables
  \<open>(k, v, s, tot)\<close>:
  \<^verbatim>\<open>
      tot += v
      if(k >= x1 and k <= x2): s += v
      if(tot > 10**30): s = s/10**30; tot = tot/10**30; v = v/10**30
      k += 1
      v = v*q*(N+1-k)/k
  \<close>
\<close>

definition bp_body :: "real \<Rightarrow> real \<Rightarrow> real \<Rightarrow> real \<Rightarrow> real \<times> real \<times> real \<times> real
    \<Rightarrow> error + real \<times> real \<times> real \<times> real" where
  "bp_body N q x1 x2 st =
     (case st of (k, v, s, tot) \<Rightarrow>
        let tot1 = tot + v;
            s1 = (if k \<ge> x1 \<and> k \<le> x2 then s + v else s);
            s2 = (if tot1 > 10 ^ 30 then s1 / 10 ^ 30 else s1);
            tot2 = (if tot1 > 10 ^ 30 then tot1 / 10 ^ 30 else tot1);
            v2 = (if tot1 > 10 ^ 30 then v / 10 ^ 30 else v);
            k1 = k + 1
        in case fdiv (v2 * q * (N + 1 - k1)) k1 of
             Inl e \<Rightarrow> Inl e
           | Inr v3 \<Rightarrow> Inr (k1, v3, s2, tot2))"

function bp_loop :: "real \<Rightarrow> real \<Rightarrow> real \<Rightarrow> real \<Rightarrow> real \<times> real \<times> real \<times> real
    \<Rightarrow> error + real \<times> real \<times> real \<times> real" where
  "bp_loop N q x1 x2 st =
     (if fst st \<le> N then
        (case bp_body N q x1 x2 st of
           Inl e \<Rightarrow> Inl e
         | Inr st' \<Rightarrow> bp_loop N q x1 x2 st')
      else Inr st)"
  by pat_completeness auto
termination
proof (relation "measure (\<lambda>(N, q, x1, x2, st). nat \<lceil>N + 1 - fst st\<rceil>)")
  show "wf (measure (\<lambda>(N, q, x1, x2, st). nat \<lceil>N + 1 - fst st\<rceil>))"
    by simp
next
  fix N q x1 x2 :: real and st st' :: "real \<times> real \<times> real \<times> real"
  assume le: "fst st \<le> N" and body: "bp_body N q x1 x2 st = Inr st'"
  from body have k: "fst st' = fst st + 1"
    by (auto simp: bp_body_def Let_def fdiv_def split: prod.splits if_splits sum.splits)
  have "\<lceil>N + 1 - fst st'\<rceil> = \<lceil>N + 1 - fst st\<rceil> - 1"
    unfolding k by (simp add: algebra_simps) linarith
  moreover have "1 \<le> \<lceil>N + 1 - fst st\<rceil>"
    using le by (simp add: le_ceiling_iff)
  ultimately show "((N, q, x1, x2, st'), (N, q, x1, x2, st))
      \<in> measure (\<lambda>(N, q, x1, x2, st). nat \<lceil>N + 1 - fst st\<rceil>)"
    by simp
qed

declare bp_loop.simps [simp del]

text \<open>
  \<^verbatim>\<open>
  def binomial_proportion(N, p, x1, x2):
      p = float(p)
      q = p/(1-p)
      k = 0.0; v = 1.0; s = 0.0; tot = 0.0
      while(k<=N): ...
      return s/tot
  \<close>
\<close>

definition binomial_proportion :: "real \<Rightarrow> real \<Rightarrow> real \<Rightarrow> real \<Rightarrow> error + real" where
  "binomial_proportion N p x1 x2 =
     (case fdiv p (1 - p) of
        Inl e \<Rightarrow> Inl e
      | Inr q \<Rightarrow>
          (case bp_loop N q x1 x2 (0, 1, 0, 0) of
             Inl e \<Rightarrow> Inl e
           | Inr (k, v, s, tot) \<Rightarrow> fdiv s tot))"


text \<open>
  The two bisection loops of \<open>binomial_proportion_ci\<close>, on the loop variables
  \<open>(v, vsL, vsH)\<close>. Both have the guard \<open>(vsH-vsL) > 10**-5\<close>; the bodies are
  \<^verbatim>\<open>
      if(binomial_proportion(denominator, v, numerator, denominator) > p):
              vsH = v; v = (vsL+v)/2
      else:
              vsL = v; v = (v+vsH)/2
  \<close>
  for the lower bound and
  \<^verbatim>\<open>
      if(binomial_proportion(denominator, v, 0, numerator) < p):
              vsH = v; v = (vsL+v)/2
      else:
              vsL = v; v = (v+vsH)/2
  \<close>
  for the upper bound.
\<close>

definition ci_guard :: "real \<times> real \<times> real \<Rightarrow> bool" where
  "ci_guard st = (case st of (v, vsL, vsH) \<Rightarrow> vsH - vsL > 1 / 10 ^ 5)"

definition ci_low_body :: "real \<Rightarrow> real \<Rightarrow> real \<Rightarrow> real \<times> real \<times> real
    \<Rightarrow> error + real \<times> real \<times> real" where
  "ci_low_body numerator denominator p st =
     (case st of (v, vsL, vsH) \<Rightarrow>
        case binomial_proportion denominator v numerator denominator of
          Inl e \<Rightarrow> Inl e
        | Inr b \<Rightarrow> if b > p then Inr ((vsL + v) / 2, vsL, v)
                   else Inr ((v + vsH) / 2, v, vsH))"

definition ci_high_body :: "real \<Rightarrow> real \<Rightarrow> real \<Rightarrow> real \<times> real \<times> real
    \<Rightarrow> error + real \<times> real \<times> real" where
  "ci_high_body numerator denominator p st =
     (case st of (v, vsL, vsH) \<Rightarrow>
        case binomial_proportion denominator v 0 numerator of
          Inl e \<Rightarrow> Inl e
        | Inr b \<Rightarrow> if b < p then Inr ((vsL + v) / 2, vsL, v)
                   else Inr ((v + vsH) / 2, v, vsH))"

text \<open>
  The termination order of both loops: the bracket measured in units of \<open>10**-5\<close>,
  rounded up, and then whether \<open>v\<close> is the midpoint of the bracket (it is after the
  first iteration, whatever the state the loop is entered in).
\<close>

definition ci_span :: "real \<times> real \<times> real \<Rightarrow> nat" where
  "ci_span st = (case st of (v, vsL, vsH) \<Rightarrow> nat \<lceil>(\<bar>vsH - v\<bar> + \<bar>v - vsL\<bar>) * 10 ^ 5\<rceil>)"

definition ci_off_centre :: "real \<times> real \<times> real \<Rightarrow> nat" where
  "ci_off_centre st = (case st of (v, vsL, vsH) \<Rightarrow> if v = (vsL + vsH) / 2 then 0 else 1)"

lemma ceiling_half_less:
  fixes x :: real
  assumes "1 < x"
  shows "nat \<lceil>x / 2\<rceil> < nat \<lceil>x\<rceil>"
proof -
  have "x / 2 \<le> of_int (\<lceil>x\<rceil> - 1)"
  proof (cases "x \<le> 2")
    case True
    have "2 \<le> \<lceil>x\<rceil>" using assms by (simp add: le_ceiling_iff)
    then have "(1::real) \<le> of_int (\<lceil>x\<rceil> - 1)" by simp
    with True show ?thesis by linarith
  next
    case False
    have "x \<le> of_int \<lceil>x\<rceil>" by (rule le_of_int_ceiling)
    moreover have "(of_int (\<lceil>x\<rceil> - 1) :: real) = of_int \<lceil>x\<rceil> - 1" by simp
    ultimately show ?thesis using False by linarith
  qed
  then have "\<lceil>x / 2\<rceil> < \<lceil>x\<rceil>" by (simp add: ceiling_less_iff)
  moreover have "0 < \<lceil>x\<rceil>" using assms by (simp add: less_ceiling_iff)
  ultimately show ?thesis by simp
qed

lemma ci_step_decreases:
  assumes guard: "ci_guard (v, vsL, vsH)"
    and next_state: "st' = ((vsL + v) / 2, vsL, v) \<or> st' = ((v + vsH) / 2, v, vsH)"
  shows "(st', (v, vsL, vsH)) \<in> measures [ci_span, ci_off_centre]"
proof (cases "v = (vsL + vsH) / 2")
  case True
  from guard have w: "1 < (vsH - vsL) * 10 ^ 5"
    by (simp add: ci_guard_def field_simps)
  have old: "ci_span (v, vsL, vsH) = nat \<lceil>(vsH - vsL) * 10 ^ 5\<rceil>"
    using True w by (simp add: ci_span_def field_simps abs_if)
  from guard have lt: "vsL < vsH"
    by (simp add: ci_guard_def)
  have eq: "\<bar>snd (snd st') - fst st'\<bar> + \<bar>fst st' - fst (snd st')\<bar> = (vsH - vsL) / 2"
    using True lt next_state by (auto simp: abs_if)
  have "ci_span st' = nat \<lceil>(\<bar>snd (snd st') - fst st'\<bar> + \<bar>fst st' - fst (snd st')\<bar>) * 10 ^ 5\<rceil>"
    by (simp only: ci_span_def case_prod_beta)
  also have "\<dots> = nat \<lceil>(vsH - vsL) / 2 * 10 ^ 5\<rceil>"
    by (simp only: eq)
  also have "(vsH - vsL) / 2 * 10 ^ 5 = (vsH - vsL) * 10 ^ 5 / 2"
    by simp
  finally have new: "ci_span st' = nat \<lceil>(vsH - vsL) * 10 ^ 5 / 2\<rceil>" .
  show ?thesis
    using ceiling_half_less [OF w] old new by simp
next
  case False
  have centred: "ci_off_centre st' = 0"
    using next_state by (auto simp: ci_off_centre_def)
  have off: "ci_off_centre (v, vsL, vsH) = 1"
    using False by (simp add: ci_off_centre_def)
  have "(\<bar>snd (snd st') - fst st'\<bar> + \<bar>fst st' - fst (snd st')\<bar>) * 10 ^ 5
      \<le> (\<bar>vsH - v\<bar> + \<bar>v - vsL\<bar>) * 10 ^ 5"
    using next_state by (auto simp: field_simps abs_if)
  then have "nat \<lceil>(\<bar>snd (snd st') - fst st'\<bar> + \<bar>fst st' - fst (snd st')\<bar>) * 10 ^ 5\<rceil>
      \<le> nat \<lceil>(\<bar>vsH - v\<bar> + \<bar>v - vsL\<bar>) * 10 ^ 5\<rceil>"
    by (intro nat_mono ceiling_mono)
  then have "ci_span st' \<le> ci_span (v, vsL, vsH)"
    by (simp only: ci_span_def case_prod_beta fst_conv snd_conv)
  with centred off show ?thesis by auto
qed

function ci_low_loop :: "real \<Rightarrow> real \<Rightarrow> real \<Rightarrow> real \<times> real \<times> real
    \<Rightarrow> error + real \<times> real \<times> real" where
  "ci_low_loop numerator denominator p st =
     (if ci_guard st then
        (case ci_low_body numerator denominator p st of
           Inl e \<Rightarrow> Inl e
         | Inr st' \<Rightarrow> ci_low_loop numerator denominator p st')
      else Inr st)"
  by pat_completeness auto
termination
proof (relation "inv_image (measures [ci_span, ci_off_centre]) (\<lambda>(n, d, p, st). st)")
  show "wf (inv_image (measures [ci_span, ci_off_centre])
      (\<lambda>(n, d, p, st). st :: real \<times> real \<times> real))"
    by simp
next
  fix numerator denominator p :: real and st st' :: "real \<times> real \<times> real"
  assume guard: "ci_guard st" and body: "ci_low_body numerator denominator p st = Inr st'"
  obtain v vsL vsH where st: "st = (v, vsL, vsH)"
    by (cases st) auto
  from body have "st' = ((vsL + v) / 2, vsL, v) \<or> st' = ((v + vsH) / 2, v, vsH)"
    unfolding st by (auto simp: ci_low_body_def split: sum.splits if_splits)
  with guard have "(st', st) \<in> measures [ci_span, ci_off_centre]"
    unfolding st by (rule ci_step_decreases)
  then show "((numerator, denominator, p, st'), (numerator, denominator, p, st))
      \<in> inv_image (measures [ci_span, ci_off_centre]) (\<lambda>(n, d, p, st). st)"
    by simp
qed

function ci_high_loop :: "real \<Rightarrow> real \<Rightarrow> real \<Rightarrow> real \<times> real \<times> real
    \<Rightarrow> error + real \<times> real \<times> real" where
  "ci_high_loop numerator denominator p st =
     (if ci_guard st then
        (case ci_high_body numerator denominator p st of
           Inl e \<Rightarrow> Inl e
         | Inr st' \<Rightarrow> ci_high_loop numerator denominator p st')
      else Inr st)"
  by pat_completeness auto
termination
proof (relation "inv_image (measures [ci_span, ci_off_centre]) (\<lambda>(n, d, p, st). st)")
  show "wf (inv_image (measures [ci_span, ci_off_centre])
      (\<lambda>(n, d, p, st). st :: real \<times> real \<times> real))"
    by simp
next
  fix numerator denominator p :: real and st st' :: "real \<times> real \<times> real"
  assume guard: "ci_guard st" and body: "ci_high_body numerator denominator p st = Inr st'"
  obtain v vsL vsH where st: "st = (v, vsL, vsH)"
    by (cases st) auto
  from body have "st' = ((vsL + v) / 2, vsL, v) \<or> st' = ((v + vsH) / 2, v, vsH)"
    unfolding st by (auto simp: ci_high_body_def split: sum.splits if_splits)
  with guard have "(st', st) \<in> measures [ci_span, ci_off_centre]"
    unfolding st by (rule ci_step_decreases)
  then show "((numerator, denominator, p, st'), (numerator, denominator, p, st))
      \<in> inv_image (measures [ci_span, ci_off_centre]) (\<lambda>(n, d, p, st). st)"
    by simp
qed

declare ci_low_loop.simps [simp del] ci_high_loop.simps [simp del]

text \<open>
  \<^verbatim>\<open>
  def binomial_proportion_ci(numerator, denominator, alpha = 0.05):
      numerator = float(numerator)
      denominator = float(denominator)
      p = alpha/2
      ratio = numerator/denominator
      if numerator==0:
              interval_low = 0.0
      else:
              v = ratio/2; vsL = 0; vsH = ratio
              while((vsH-vsL) > 10**-5): ...
              interval_low = v
      if numerator==denominator:
              interval_high = 1.0
      else:
              v = (1+ratio)/2; vsL = ratio; vsH = 1
              while((vsH-vsL) > 10**-5): ...
              interval_high = v
      return (interval_low, interval_high)
  \<close>
\<close>

definition ci_low_init :: "real \<Rightarrow> real \<times> real \<times> real" where
  "ci_low_init ratio = (ratio / 2, 0, ratio)"

definition ci_high_init :: "real \<Rightarrow> real \<times> real \<times> real" where
  "ci_high_init ratio = ((1 + ratio) / 2, ratio, 1)"

definition binomial_proportion_ci :: "real \<Rightarrow> real \<Rightarrow> real \<Rightarrow> error + real \<times> real" where
  "binomial_proportion_ci numerator denominator alpha =
     (let p = alpha / 2 in
      case fdiv numerator denominator of
        Inl e \<Rightarrow> Inl e
      | Inr ratio \<Rightarrow>
          (case (if numerator = 0 then Inr 0
                 else case ci_low_loop numerator denominator p (ci_low_init ratio) of
                        Inl e \<Rightarrow> Inl e
                      | Inr (v, vsL, vsH) \<Rightarrow> Inr v) of
             Inl e \<Rightarrow> Inl e
           | Inr interval_low \<Rightarrow>
               (case (if numerator = denominator then Inr 1
                      else case ci_high_loop numerator denominator p (ci_high_init ratio) of
                             Inl e \<Rightarrow> Inl e
                           | Inr (v, vsL, vsH) \<Rightarrow> Inr v) of
                  Inl e \<Rightarrow> Inl e
                | Inr interval_high \<Rightarrow> Inr (interval_low, interval_high))))"

section \<open>numpy floats\<close>

text \<open>
  Arithmetic on numpy \<open>float64\<close> values does not raise on a zero divisor: under
  numpy's default error state it warns and returns \<open>nan\<close> or an infinity. A numpy
  float is modelled as an exact real or one of the three special values; rounding,
  overflow and the sign of zero are left out.
\<close>

datatype npfloat = Num real | PosInf | NegInf | NaN

fun np_neg :: "npfloat \<Rightarrow> npfloat" where
  "np_neg (Num a) = Num (- a)"
| "np_neg PosInf = NegInf"
| "np_neg NegInf = PosInf"
| "np_neg NaN = NaN"

fun np_add :: "npfloat \<Rightarrow> npfloat \<Rightarrow> npfloat" where
  "np_add (Num a) (Num b) = Num (a + b)"
| "np_add NaN y = NaN"
| "np_add x NaN = NaN"
| "np_add PosInf NegInf = NaN"
| "np_add NegInf PosInf = NaN"
| "np_add PosInf y = PosInf"
| "np_add x PosInf = PosInf"
| "np_add NegInf y = NegInf"
| "np_add x NegInf = NegInf"

definition np_sub :: "npfloat \<Rightarrow> npfloat \<Rightarrow> npfloat" where
  "np_sub x y = np_add x (np_neg y)"

text \<open>An infinity with the sign of \<open>s\<close>; \<open>nan\<close> when \<open>s\<close> is zero.\<close>

definition np_inf :: "real \<Rightarrow> npfloat" where
  "np_inf s = (if s = 0 then NaN else if 0 < s then PosInf else NegInf)"

fun np_mul :: "npfloat \<Rightarrow> npfloat \<Rightarrow> npfloat" where
  "np_mul (Num a) (Num b) = Num (a * b)"
| "np_mul NaN y = NaN"
| "np_mul x NaN = NaN"
| "np_mul PosInf (Num b) = np_inf b"
| "np_mul NegInf (Num b) = np_inf (- b)"
| "np_mul (Num a) PosInf = np_inf a"
| "np_mul (Num a) NegInf = np_inf (- a)"
| "np_mul PosInf PosInf = PosInf"
| "np_mul NegInf NegInf = PosInf"
| "np_mul PosInf NegInf = NegInf"
| "np_mul NegInf PosInf = NegInf"

fun np_div :: "npfloat \<Rightarrow> npfloat \<Rightarrow> npfloat" where
  "np_div (Num a) (Num b) = (if b = 0 then np_inf a else Num (a / b))"
| "np_div NaN y = NaN"
| "np_div x NaN = NaN"
| "np_div (Num a) PosInf = Num 0"
| "np_div (Num a) NegInf = Num 0"
| "np_div PosInf (Num b) = (if 0 \<le> b then PosInf else NegInf)"
| "np_div NegInf (Num b) = (if 0 \<le> b then NegInf else PosInf)"
| "np_div PosInf y = NaN"
| "np_div NegInf y = NaN"

section \<open>Confusion-matrix statistics (\<open>get_op_stats\<close>)\<close>

text \<open>
  \<open>metrics.confusion_matrix\<close> is scikit-learn's, called with two arguments. By its
  documentation the labels are the values that appear at least once in \<open>y_true\<close> or
  \<open>y_pred\<close>, in sorted order, and entry \<open>(i, j)\<close> counts the samples whose true label
  is the \<open>i\<close>-th and whose predicted label is the \<open>j\<close>-th; vectors of different
  lengths are refused with \<open>ValueError\<close>. Labels are modelled as integers.
\<close>

definition unique_labels :: "int list \<Rightarrow> int list \<Rightarrow> int list" where
  "unique_labels y_true y_pred = sort (remdups (y_true @ y_pred))"

definition confusion_matrix :: "int list \<Rightarrow> int list \<Rightarrow> error + nat list list" where
  "confusion_matrix y_true y_pred =
     (if length y_true \<noteq> length y_pred then Inl ValueError
      else let labels = unique_labels y_true y_pred in
        Inr (map (\<lambda>t. map (\<lambda>p. length (filter (\<lambda>(a, b). a = t \<and> b = p) (zip y_true y_pred)))
                        labels) labels))"

text \<open>\<open>cm[i,j]\<close> after \<open>cm = cm.astype(float)\<close>; out of range it raises \<open>IndexError\<close>.\<close>

definition cm_at :: "nat list list \<Rightarrow> nat \<Rightarrow> nat \<Rightarrow> error + npfloat" where
  "cm_at cm i j =
     (if i < length cm \<and> j < length (cm ! i) then Inr (Num (real (cm ! i ! j)))
      else Inl IndexError)"

text \<open>
  \<open>y[mask]\<close> with a boolean mask keeps the entries where the mask is true; a mask of
  another length is modelled as \<open>IndexError\<close>. \<open>xs[i]\<close> on a list raises
  \<open>IndexError\<close> out of range.
\<close>

definition mask_select :: "'a list \<Rightarrow> bool list \<Rightarrow> error + 'a list" where
  "mask_select xs msk =
     (if length msk \<noteq> length xs then Inl IndexError
      else Inr (map fst (filter snd (zip xs msk))))"

definition list_at :: "'a list \<Rightarrow> nat \<Rightarrow> error + 'a" where
  "list_at xs i = (if i < length xs then Inr (xs ! i) else Inl IndexError)"

text \<open>
  The second argument of \<open>get_op_stats\<close>: a single numpy array, or a list with one
  array per prediction set. The code tells them apart by
  \<open>'numpy' in str(type(y_all))\<close>.
\<close>

datatype targets = NumpyArray "int list" | PyList "int list list"

text \<open>
  The statistics of one prediction set, from the entries of its confusion matrix, in
  the order of \<open>stats_names\<close>:
  \<^verbatim>\<open>
      stats_all[i,4] = 100.0*TP/(TP+FN) # Sensitivity
      stats_all[i,5] = 100.0*TN/(TN+FP) # Specificity
      stats_all[i,6] = 100.0*TP/(TP+FP) # PPV
      stats_all[i,7] = 100.0*TN/(TN+FN) # NPV
      stats_all[i,8] = 2.0*(stats_all[i,6] * stats_all[i,4]) / (stats_all[i,6] + stats_all[i,4])
      stats_all[i,9] = 100.0 * (TP+FP)/(TP+FP+TN+FN) * (stats_all[i,6]/100.0)
      stats_all[i,10] = 100.0 * (TP+FP)/(TP+FP+TN+FN) * (1-stats_all[i,6]/100.0)
      stats_all[i,0] = TN; stats_all[i,1] = FP; stats_all[i,2] = FN; stats_all[i,3] = TP
  \<close>
\<close>

definition op_stats_row :: "npfloat \<Rightarrow> npfloat \<Rightarrow> npfloat \<Rightarrow> npfloat \<Rightarrow> npfloat list" where
  "op_stats_row TN FP FN TP =
     (let Sens = np_div (np_mul (Num 100) TP) (np_add TP FN);
          Spec = np_div (np_mul (Num 100) TN) (np_add TN FP);
          PPV = np_div (np_mul (Num 100) TP) (np_add TP FP);
          NPV = np_div (np_mul (Num 100) TN) (np_add TN FN);
          F1 = np_div (np_mul (Num 2) (np_mul PPV Sens)) (np_add PPV Sens);
          NTP = np_mul (np_div (np_mul (Num 100) (np_add TP FP))
                          (np_add (np_add (np_add TP FP) TN) FN))
                  (np_div PPV (Num 100));
          NFP = np_mul (np_div (np_mul (Num 100) (np_add TP FP))
                          (np_add (np_add (np_add TP FP) TN) FN))
                  (np_sub (Num 1) (np_div PPV (Num 100)))
      in [TN, FP, FN, TP, Sens, Spec, PPV, NPV, F1, NTP, NFP])"

text \<open>
  One pass of \<open>for i, yhat in enumerate(yhat_all)\<close>: the confusion matrix of the
  \<open>i\<close>-th prediction set against \<open>y_all[i]\<close>, both restricted to \<open>idx[i]\<close> when
  \<open>idx\<close> is given, its four entries, and the row of statistics.
\<close>

definition get_op_stats_row :: "int list list \<Rightarrow> bool list list option \<Rightarrow> nat \<Rightarrow> int list
    \<Rightarrow> error + npfloat list" where
  "get_op_stats_row y_all idx i yhat =
     (case (case idx of
              None \<Rightarrow>
                (case list_at y_all i of
                   Inl e \<Rightarrow> Inl e
                 | Inr y \<Rightarrow> confusion_matrix y yhat)
            | Some masks \<Rightarrow>
                (case list_at y_all i of
                   Inl e \<Rightarrow> Inl e
                 | Inr y \<Rightarrow>
                     (case list_at masks i of
                        Inl e \<Rightarrow> Inl e
                      | Inr msk \<Rightarrow>
                          (case mask_select y msk of
                             Inl e \<Rightarrow> Inl e
                           | Inr y_sub \<Rightarrow>
                               (case mask_select yhat msk of
                                  Inl e \<Rightarrow> Inl e
                                | Inr yhat_sub \<Rightarrow> confusion_matrix y_sub yhat_sub))))) of
        Inl e \<Rightarrow> Inl e
      | Inr cm \<Rightarrow>
          (case cm_at cm 0 0 of
             Inl e \<Rightarrow> Inl e
           | Inr TN \<Rightarrow>
               (case cm_at cm 0 1 of
                  Inl e \<Rightarrow> Inl e
                | Inr FP \<Rightarrow>
                    (case cm_at cm 1 0 of
                       Inl e \<Rightarrow> Inl e
                     | Inr FN \<Rightarrow>
                         (case cm_at cm 1 1 of
                            Inl e \<Rightarrow> Inl e
                          | Inr TP \<Rightarrow> Inr (op_stats_row TN FP FN TP))))))"

text \<open>
  The loop over the prediction sets, writing row \<open>i\<close> of \<open>stats_all\<close> in pass \<open>i\<close>;
  an exception in a pass ends the loop.
\<close>

fun get_op_stats_loop :: "int list list \<Rightarrow> bool list list option \<Rightarrow> nat \<Rightarrow> int list list
    \<Rightarrow> npfloat list list \<Rightarrow> error + npfloat list list" where
  "get_op_stats_loop y_all idx i [] stats_all = Inr stats_all"
| "get_op_stats_loop y_all idx i (yhat # rest) stats_all =
     (case get_op_stats_row y_all idx i yhat of
        Inl e \<Rightarrow> Inl e
      | Inr row \<Rightarrow> get_op_stats_loop y_all idx (Suc i) rest (stats_all[i := row]))"

text \<open>
  \<^verbatim>\<open>
  def get_op_stats(yhat_all, y_all, yhat_names=None, header=None, idx=None):
      if 'numpy' in str(type(y_all)):
          y_all = [y_all for i in range(len(yhat_all))]
      stats_names = [ 'TN','FP','FN','TP','Sens','Spec','PPV','NPV','F1','NTP','NFP']
      stats_all = np.zeros( [len(yhat_all), len(stats_names)] )
      for i, yhat in enumerate(yhat_all): ...
      return stats_all
  \<close>
  \<open>yhat_names\<close> and \<open>header\<close> are not used by the function.
\<close>

definition get_op_stats :: "int list list \<Rightarrow> targets \<Rightarrow> bool list list option
    \<Rightarrow> error + npfloat list list" where
  "get_op_stats yhat_all y_all idx =
     (let y_list = (case y_all of
                      NumpyArray y \<Rightarrow> map (\<lambda>i. y) [0..<length yhat_all]
                    | PyList ys \<Rightarrow> ys)
      in get_op_stats_loop y_list idx 0 yhat_all
           (replicate (length yhat_all) (replicate 11 (Num 0))))"

section \<open>Cronbach's alpha and its bootstrap (\<open>cronbach_alpha\<close>, \<open>cronbach_alpha_bootstrap\<close>)\<close>

text \<open>
  A matrix is the list of its rows, all of one length; its entries are finite floats.
  \<open>x.var(ddof=1)\<close> of a vector is the sum of the squared deviations from the mean
  divided by \<open>N - 1\<close>: \<open>nan\<close> for a vector of one entry (\<open>0/0\<close>) and for an empty
  one. \<open>.sum()\<close> adds numpy floats. The mean, the squares and the sums are taken
  over exact reals: the rounding of each float64 operation, overflow and underflow of
  the squares, and the order in which numpy adds are not modelled, so nothing here
  decides whether two float64 results are bit-for-bit equal.
\<close>

definition np_var_ddof1 :: "real list \<Rightarrow> npfloat" where
  "np_var_ddof1 x =
     (let N = length x in
      if N = 0 then NaN
      else let mean = sum_list x / real N
           in np_div (Num (sum_list (map (\<lambda>a. (a - mean) ^ 2) x))) (Num (real N - 1)))"

definition np_sum :: "npfloat list \<Rightarrow> npfloat" where
  "np_sum xs = foldl np_add (Num 0) xs"

text \<open>\<open>X.sum(axis=0)\<close>: the sums of the columns.\<close>

definition col_sums :: "real list list \<Rightarrow> real list" where
  "col_sums X = map (\<lambda>j. sum_list (map (\<lambda>row. row ! j) X)) [0..<length (hd X)]"

text \<open>
  \<^verbatim>\<open>
  def cronbach_alpha(X):
      X = np.asarray(X)
      return X.shape[0] / (X.shape[0] - 1.0) * (1.0 - (X.var(axis=1, ddof=1).sum() / X.sum(axis=0).var(ddof=1)))
  \<close>
  \<open>X.shape[0] / (X.shape[0] - 1.0)\<close> divides Python numbers and is evaluated first: it
  raises \<open>ZeroDivisionError\<close> for a matrix of one row. An empty \<open>X\<close> is a
  one-dimensional array, for which \<open>var(axis=1)\<close> is refused (modelled as
  \<open>ValueError\<close>). The other operations are numpy's.
\<close>

definition cronbach_alpha :: "real list list \<Rightarrow> error + npfloat" where
  "cronbach_alpha X =
     (case fdiv (real (length X)) (real (length X) - 1) of
        Inl e \<Rightarrow> Inl e
      | Inr c \<Rightarrow>
          if X = [] then Inl ValueError
          else Inr (np_mul (Num c)
                 (np_sub (Num 1) (np_div (np_sum (map np_var_ddof1 X)) (np_var_ddof1 (col_sums X))))))"

text \<open>
  The pseudo-random generator is an input: \<open>rng b j\<close> is the raw value behind the
  \<open>j\<close>-th entry of the \<open>b\<close>-th call of \<open>np.random.randint\<close>.
  \<open>np.random.randint(0, high=N, size=N)\<close> returns \<open>N\<close> indices, each below \<open>N\<close> and
  drawn independently of the others (so an index can repeat); it raises \<open>ValueError\<close>
  when \<open>N\<close> is 0, which the loop below checks. \<open>X[:,idx]\<close> takes the columns \<open>idx\<close>.
\<close>

definition randint :: "(nat \<Rightarrow> nat \<Rightarrow> nat) \<Rightarrow> nat \<Rightarrow> nat \<Rightarrow> nat list" where
  "randint rng b N = map (\<lambda>j. rng b j mod N) [0..<N]"

definition select_columns :: "real list list \<Rightarrow> nat list \<Rightarrow> real list list" where
  "select_columns X idx = map (\<lambda>row. map (\<lambda>j. row ! j) idx) X"

text \<open>
  \<open>np.percentile(a, q)\<close> is numpy's. By its documentation (linear interpolation) it is
  \<open>i + (j - i) * fraction\<close>, where \<open>i\<close> and \<open>j\<close> are the entries of the sorted sample
  around the position \<open>q/100 * (n - 1)\<close> and \<open>fraction\<close> is the fractional part of
  that position; a sample that holds a \<open>nan\<close> gives \<open>nan\<close>, and an empty sample is
  refused (modelled as \<open>IndexError\<close>). The model is meant for samples of finite
  values and \<open>nan\<close>: on a sample that holds an infinity numpy's own arithmetic can
  return another value than this formula.
\<close>

fun np_le :: "npfloat \<Rightarrow> npfloat \<Rightarrow> bool" where
  "np_le (Num a) (Num b) = (a \<le> b)"
| "np_le NegInf y = True"
| "np_le x PosInf = True"
| "np_le x y = False"

fun np_insort :: "npfloat \<Rightarrow> npfloat list \<Rightarrow> npfloat list" where
  "np_insort x [] = [x]"
| "np_insort x (y # ys) = (if np_le x y then x # y # ys else y # np_insort x ys)"

definition np_sort :: "npfloat list \<Rightarrow> npfloat list" where
  "np_sort xs = foldr np_insort xs []"

definition np_percentile :: "npfloat list \<Rightarrow> real \<Rightarrow> error + npfloat" where
  "np_percentile a q =
     (if a = [] then Inl IndexError
      else if NaN \<in> set a then Inr NaN
      else let s = np_sort a;
               pos = q / 100 * (real (length a) - 1);
               lo = nat \<lfloor>pos\<rfloor>;
               hi = min (lo + 1) (length a - 1)
           in Inr (np_add (s ! lo) (np_mul (np_sub (s ! hi) (s ! lo)) (Num (pos - real lo)))))"

text \<open>
  The loop \<open>for b in range(B)\<close> of \<open>cronbach_alpha_bootstrap\<close>, from pass \<open>b\<close> with
  \<open>n\<close> passes left:
  \<^verbatim>\<open>
      idx = np.random.randint(0, high=N, size=N)
      alpha[b] = cronbach_alpha(X[:,idx])
  \<close>
\<close>

fun bootstrap_loop :: "real list list \<Rightarrow> (nat \<Rightarrow> nat \<Rightarrow> nat) \<Rightarrow> nat \<Rightarrow> nat \<Rightarrow> nat
    \<Rightarrow> npfloat list \<Rightarrow> error + npfloat list" where
  "bootstrap_loop X rng N b 0 alpha = Inr alpha"
| "bootstrap_loop X rng N b (Suc n) alpha =
     (if N = 0 then Inl ValueError
      else case cronbach_alpha (select_columns X (randint rng b N)) of
             Inl e \<Rightarrow> Inl e
           | Inr a \<Rightarrow> bootstrap_loop X rng N (Suc b) n (alpha[b := a]))"

text \<open>
  \<^verbatim>\<open>
  def cronbach_alpha_bootstrap(X,B=1000):
      alpha = np.zeros(B,dtype=float)
      N = X.shape[1]
      for b in range(B): ...
      ci = np.percentile(alpha, [5,95])
      alpha = cronbach_alpha(X)
      return alpha, ci
  \<close>
  The optional argument \<open>B\<close> is \<open>None\<close> when the caller leaves it out, and
  \<open>bootstrap_count\<close> is the value the body then sees. \<open>X.shape[1]\<close> raises
  \<open>IndexError\<close> for an empty \<open>X\<close>.
\<close>

definition bootstrap_count :: "nat option \<Rightarrow> nat" where
  "bootstrap_count B_arg = (case B_arg of None \<Rightarrow> 1000 | Some B \<Rightarrow> B)"

definition cronbach_alpha_bootstrap :: "real list list \<Rightarrow> nat option \<Rightarrow> (nat \<Rightarrow> nat \<Rightarrow> nat)
    \<Rightarrow> error + npfloat \<times> npfloat \<times> npfloat" where
  "cronbach_alpha_bootstrap X B_arg rng =
     (let B = bootstrap_count B_arg in
      if X = [] then Inl IndexError
      else
        (case bootstrap_loop X rng (length (hd X)) 0 B (replicate B (Num 0)) of
           Inl e \<Rightarrow> Inl e
         | Inr alpha \<Rightarrow>
             (case np_percentile alpha 5 of
                Inl e \<Rightarrow> Inl e
              | Inr ci_low \<Rightarrow>
                  (case np_percentile alpha 95 of
                     Inl e \<Rightarrow> Inl e
                   | Inr ci_high \<Rightarrow>
                       (case cronbach_alpha X of
                          Inl e \<Rightarrow> Inl e
                        | Inr a \<Rightarrow> Inr (a, ci_low, ci_high))))))"

text \<open>
  The agreement cell of \<open>print_auc_table\<close> (the branch \<open>elif q>p\<close>), before it is
  formatted:
  \<^verbatim>\<open>
      alpha, ci = cronbach_alpha_bootstrap(np.row_stack([preds[ppred],preds[qpred]]),B=2000)
  \<close>
  \<open>np.row_stack\<close> refuses vectors of different lengths with \<open>ValueError\<close>.
\<close>

definition print_auc_table_alpha :: "real list \<Rightarrow> real list \<Rightarrow> (nat \<Rightarrow> nat \<Rightarrow> nat)
    \<Rightarrow> error + npfloat \<times> npfloat \<times> npfloat" where
  "print_auc_table_alpha x1 x2 rng =
     (if length x1 \<noteq> length x2 then Inl ValueError
      else cronbach_alpha_bootstrap [x1, x2] (Some 2000) rng)"

section \<open>The delimited-file report (\<open>print_stats_to_file\<close>)\<close>

text \<open>
  The file system is part of the state: the contents of the files by path, and the
  paths of the file objects that were opened and not yet closed. \<open>open(path, 'w')\<close>
  creates the file or truncates it, \<open>f.write(s)\<close> appends to it, \<open>f.close()\<close>
  releases the handle.
\<close>

record world =
  files :: "string \<rightharpoonup> string"
  open_handles :: "string list"

definition fs_open :: "string \<Rightarrow> world \<Rightarrow> world" where
  "fs_open path w = w\<lparr>files := (files w)(path \<mapsto> []), open_handles := path # open_handles w\<rparr>"

definition fs_write :: "string \<Rightarrow> string \<Rightarrow> world \<Rightarrow> world" where
  "fs_write path s w =
     w\<lparr>files := (files w)(path \<mapsto> (case files w path of None \<Rightarrow> s | Some old \<Rightarrow> old @ s))\<rparr>"

definition fs_close :: "string \<Rightarrow> world \<Rightarrow> world" where
  "fs_close path w = w\<lparr>open_handles := remove1 path (open_handles w)\<rparr>"

definition tab :: string where
  "tab = [CHR 0x09]"

definition newline :: string where
  "newline = [CHR 0x0A]"

text \<open>
  The table \<open>stats_all\<close> is a two-dimensional array, modelled as the list of its rows
  with finite cells; \<open>stats_all[i,n]\<close> raises \<open>IndexError\<close> out of range. The array
  \<open>ci\<close> has the table's shape with a pair in each cell.
\<close>

definition tbl_at :: "'a list list \<Rightarrow> nat \<Rightarrow> nat \<Rightarrow> error + 'a" where
  "tbl_at t i n = (if i < length t \<and> n < length (t ! i) then Inr (t ! i ! n) else Inl IndexError)"

definition tbl_set :: "'a list list \<Rightarrow> nat \<Rightarrow> nat \<Rightarrow> 'a \<Rightarrow> error + 'a list list" where
  "tbl_set t i n x =
     (if i < length t \<and> n < length (t ! i) then Inr (t[i := (t ! i)[n := x]]) else Inl IndexError)"

text \<open>
  One statement \<open>ci[i,n,:] = binomial_proportion_ci(numerator, denominator, alpha = 0.05)\<close>:
  the call is evaluated first, then the cell is written.
\<close>

definition store_ci :: "(real \<times> real) list list \<Rightarrow> nat \<Rightarrow> nat \<Rightarrow> real \<Rightarrow> real
    \<Rightarrow> error + (real \<times> real) list list" where
  "store_ci ci i n numerator denominator =
     (case binomial_proportion_ci numerator denominator (5 / 100) of
        Inl e \<Rightarrow> Inl e
      | Inr interval \<Rightarrow> tbl_set ci i n interval)"

text \<open>
  The loop \<open>for i in range(stats_all.shape[0])\<close> that derives the intervals, from
  row \<open>i\<close> with \<open>k\<close> rows left:
  \<^verbatim>\<open>
      TN = stats_all[i,0]; FP = stats_all[i,1]; FN = stats_all[i,2]; TP = stats_all[i,3]
      ci[i,4,:] = binomial_proportion_ci(TP, TP+FN, alpha = 0.05)
      ci[i,5,:] = binomial_proportion_ci(TN, TN+FP, alpha = 0.05)
      ci[i,6,:] = binomial_proportion_ci(TP, TP+FP, alpha = 0.05)
      ci[i,7,:] = binomial_proportion_ci(TN, TN+FN, alpha = 0.05)
  \<close>
\<close>

fun derive_ci :: "real list list \<Rightarrow> nat \<Rightarrow> nat \<Rightarrow> (real \<times> real) list list
    \<Rightarrow> error + (real \<times> real) list list" where
  "derive_ci stats_all i 0 ci = Inr ci"
| "derive_ci stats_all i (Suc k) ci =
     (case tbl_at stats_all i 0 of Inl e \<Rightarrow> Inl e | Inr TN \<Rightarrow>
      case tbl_at stats_all i 1 of Inl e \<Rightarrow> Inl e | Inr FP \<Rightarrow>
      case tbl_at stats_all i 2 of Inl e \<Rightarrow> Inl e | Inr FN \<Rightarrow>
      case tbl_at stats_all i 3 of Inl e \<Rightarrow> Inl e | Inr TP \<Rightarrow>
      case store_ci ci i 4 TP (TP + FN) of Inl e \<Rightarrow> Inl e | Inr ci4 \<Rightarrow>
      case store_ci ci4 i 5 TN (TN + FP) of Inl e \<Rightarrow> Inl e | Inr ci5 \<Rightarrow>
      case store_ci ci5 i 6 TP (TP + FP) of Inl e \<Rightarrow> Inl e | Inr ci6 \<Rightarrow>
      case store_ci ci6 i 7 TN (TN + FN) of Inl e \<Rightarrow> Inl e | Inr ci7 \<Rightarrow>
      derive_ci stats_all (Suc i) k ci7)"

definition stats_names :: "string list" where
  "stats_names = [''TN'', ''FP'', ''FN'', ''TP'', ''N'', ''Sens'', ''Spec'', ''PPV'', ''NPV'',
     ''F1'', ''NTP'', ''NFP'']"

text \<open>
  The cells of one data row, \<open>for n, stats_name in enumerate(stats_names)\<close>, from the
  columns \<open>ns\<close> still to write. \<open>fmt\<close> stands for Python's \<open>%\<close> on a format string
  and a float; the tab that opens each format string is written out.
  \<^verbatim>\<open>
      if n < 5: # use integer format for the tp/fp
          f.write('\t%10.0f' % stats_all[i,n])
      elif n < 8: # print sensitivity, specificity, etc with CI
          f.write('\t%4.2f [{:2.2f}, {:2.2f}]' % stats_all[i,n], ci[i,n,0], ci[i,n,1])
      else: # use decimal format for the sensitivity, specificity, etc
          f.write('\t%10.2f' % stats_all[i,n])
  \<close>
  In the second branch the three arguments are evaluated and \<open>f.write\<close> is then called
  with all three, which raises \<open>TypeError\<close>: \<open>write\<close> takes one.
\<close>

fun write_cells :: "(string \<Rightarrow> real \<Rightarrow> string) \<Rightarrow> string \<Rightarrow> real list list
    \<Rightarrow> (real \<times> real) list list \<Rightarrow> nat \<Rightarrow> nat list \<Rightarrow> world \<Rightarrow> error option \<times> world" where
  "write_cells fmt filename stats_all ci i [] w = (None, w)"
| "write_cells fmt filename stats_all ci i (n # ns) w =
     (if n < 5 then
        (case tbl_at stats_all i n of
           Inl e \<Rightarrow> (Some e, w)
         | Inr x \<Rightarrow>
             write_cells fmt filename stats_all ci i ns
               (fs_write filename (tab @ fmt ''%10.0f'' x) w))
      else if n < 8 then
        (case tbl_at stats_all i n of
           Inl e \<Rightarrow> (Some e, w)
         | Inr x \<Rightarrow>
             (case tbl_at ci i n of
                Inl e \<Rightarrow> (Some e, w)
              | Inr interval \<Rightarrow> (Some TypeError, w)))
      else
        (case tbl_at stats_all i n of
           Inl e \<Rightarrow> (Some e, w)
         | Inr x \<Rightarrow>
             write_cells fmt filename stats_all ci i ns
               (fs_write filename (tab @ fmt ''%10.2f'' x) w)))"

text \<open>
  The data rows, \<open>for i, yhat_name in enumerate(yhat_names)\<close>: the name, the cells,
  a newline.
\<close>

fun write_rows :: "(string \<Rightarrow> real \<Rightarrow> string) \<Rightarrow> string \<Rightarrow> real list list
    \<Rightarrow> (real \<times> real) list list \<Rightarrow> nat \<Rightarrow> string list \<Rightarrow> world \<Rightarrow> error option \<times> world" where
  "write_rows fmt filename stats_all ci i [] w = (None, w)"
| "write_rows fmt filename stats_all ci i (yhat_name # rest) w =
     (case write_cells fmt filename stats_all ci i [0..<length stats_names]
             (fs_write filename yhat_name w) of
        (Some e, w') \<Rightarrow> (Some e, w')
      | (None, w') \<Rightarrow>
          write_rows fmt filename stats_all ci (Suc i) rest (fs_write filename newline w'))"

text \<open>
  \<^verbatim>\<open>
  def print_stats_to_file(filename, yhat_names, stats_all):
      f = open(filename,'w')
      stats_names = [ 'TN','FP','FN','TP','N','Sens','Spec','PPV','NPV','F1','NTP','NFP']
      ci = np.zeros( [stats_all.shape[0], stats_all.shape[1], 2] )
      for i in range(stats_all.shape[0]): ...
      f.write('Subgroup')
      for n, stats_name in enumerate(stats_names):
          f.write('\t%s' % stats_name)
      f.write('\n')
      for i, yhat_name in enumerate(yhat_names): ...
      f.close()
  \<close>
  The result is the exception the call ends with, if any, and the file system it
  leaves. The function has no \<open>try\<close> and no \<open>with\<close>: \<open>f.close()\<close> is its last
  statement only.
\<close>

definition print_stats_to_file :: "(string \<Rightarrow> real \<Rightarrow> string) \<Rightarrow> string \<Rightarrow> string list
    \<Rightarrow> real list list \<Rightarrow> world \<Rightarrow> error option \<times> world" where
  "print_stats_to_file fmt filename yhat_names stats_all w =
     (let w1 = fs_open filename w in
      case derive_ci stats_all 0 (length stats_all) (map (map (\<lambda>x. (0, 0))) stats_all) of
        Inl e \<Rightarrow> (Some e, w1)
      | Inr ci \<Rightarrow>
          (let w2 = fs_write filename ''Subgroup'' w1;
               w3 = fold (\<lambda>stats_name. fs_write filename (tab @ stats_name)) stats_names w2;
               w4 = fs_write filename newline w3
           in case write_rows fmt filename stats_all ci 0 yhat_names w4 of
                (Some e, w5) \<Rightarrow> (Some e, w5)
              | (None, w5) \<Rightarrow> (None, fs_close filename w5)))"

section \<open>Quantities used in the statements\<close>

text \<open>
  The probability \<open>P(x1 \<le> X \<le> x2)\<close> for \<open>X ~ Binomial(n, p)\<close>, as the
  specification writes it: the sum of \<open>C(n,k) p^k (1-p)^(n-k)\<close> over \<open>k\<close> from
  \<open>x1\<close> to \<open>x2\<close>.
\<close>

definition binomial_tail :: "nat \<Rightarrow> real \<Rightarrow> nat \<Rightarrow> nat \<Rightarrow> real" where
  "binomial_tail n p x1 x2 = (\<Sum>k = x1..x2. real (n choose k) * p ^ k * (1 - p) ^ (n - k))"

text \<open>
  The quantities the recurrence of \<open>binomial_proportion\<close> accumulates before the
  iteration with index \<open>j\<close>: the term \<open>C(n,i) q^i\<close>, the sum of all terms
  below \<open>j\<close>, and the sum of those whose index lies in \<open>[a, b]\<close>.
\<close>

definition bp_term :: "nat \<Rightarrow> real \<Rightarrow> nat \<Rightarrow> real" where
  "bp_term n q i = real (n choose i) * q ^ i"

definition bp_tot :: "nat \<Rightarrow> real \<Rightarrow> nat \<Rightarrow> real" where
  "bp_tot n q j = (\<Sum>i<j. bp_term n q i)"

definition bp_sel :: "nat \<Rightarrow> real \<Rightarrow> nat \<Rightarrow> nat \<Rightarrow> nat \<Rightarrow> real" where
  "bp_sel n q a b j = (\<Sum>i \<in> {a..b} \<inter> {..<j}. bp_term n q i)"

text \<open>
  The bisection loops observed from outside: the state after at most \<open>k\<close> passes of
  a loop with the given body (the loop stops passing once its guard is false), the width
  of the bracket, and the property that a state brackets \<open>[lo, hi]\<close> with \<open>v\<close> at
  the midpoint.
\<close>

fun ci_iter :: "(real \<times> real \<times> real \<Rightarrow> error + real \<times> real \<times> real) \<Rightarrow> nat
    \<Rightarrow> real \<times> real \<times> real \<Rightarrow> error + real \<times> real \<times> real" where
  "ci_iter body 0 st = Inr st"
| "ci_iter body (Suc k) st =
     (if ci_guard st then
        (case body st of
           Inl e \<Rightarrow> Inl e
         | Inr st' \<Rightarrow> ci_iter body k st')
      else Inr st)"

definition ci_width :: "real \<times> real \<times> real \<Rightarrow> real" where
  "ci_width st = (case st of (v, vsL, vsH) \<Rightarrow> vsH - vsL)"

definition ci_bracket :: "real \<Rightarrow> real \<Rightarrow> real \<times> real \<times> real \<Rightarrow> bool" where
  "ci_bracket lo hi st =
     (case st of (v, vsL, vsH) \<Rightarrow> lo \<le> vsL \<and> vsL < vsH \<and> vsH \<le> hi \<and> v = (vsL + vsH) / 2)"

definition ci_bisects :: "real \<times> real \<times> real \<Rightarrow> real \<times> real \<times> real \<Rightarrow> bool" where
  "ci_bisects st st' =
     (case st of (v, vsL, vsH) \<Rightarrow> st' = ((vsL + v) / 2, vsL, v) \<or> st' = ((v + vsH) / 2, v, vsH))"

text \<open>
  What \<open>get_op_stats\<close> is expected to put in the row of a prediction set whose
  confusion matrix has the entries \<open>tn\<close>, \<open>fp\<close>, \<open>fn\<close>, \<open>tp\<close>: a rate in percent
  is \<open>nan\<close> exactly when its denominator is zero, F1 is \<open>nan\<close> exactly when PPV or
  sensitivity is undefined or both are zero, and NTP and NFP are \<open>nan\<close> exactly when
  PPV is.
\<close>

definition pct_rate :: "nat \<Rightarrow> nat \<Rightarrow> npfloat" where
  "pct_rate a b = (if b = 0 then NaN else Num (100 * real a / real b))"

definition expected_row :: "nat \<Rightarrow> nat \<Rightarrow> nat \<Rightarrow> nat \<Rightarrow> npfloat list" where
  "expected_row tn fp fn tp =
     [Num (real tn), Num (real fp), Num (real fn), Num (real tp),
      pct_rate tp (tp + fn), pct_rate tn (tn + fp), pct_rate tp (tp + fp), pct_rate tn (tn + fn),
      (if tp = 0 then NaN
       else Num (2 * ((100 * real tp / real (tp + fp)) * (100 * real tp / real (tp + fn)))
                 / (100 * real tp / real (tp + fp) + 100 * real tp / real (tp + fn)))),
      (if tp + fp = 0 then NaN
       else Num (100 * real (tp + fp) / real (tp + fp + tn + fn)
                 * (100 * real tp / real (tp + fp) / 100))),
      (if tp + fp = 0 then NaN
       else Num (100 * real (tp + fp) / real (tp + fp + tn + fn)
                 * (1 - 100 * real tp / real (tp + fp) / 100)))]"

text \<open>
  The vector the \<open>i\<close>-th pass of \<open>get_op_stats\<close> feeds the confusion matrix: the
  whole vector, or its entries under the mask \<open>idx[i]\<close>; and whether that mask exists
  and has the vector's length.
\<close>

definition subgroup :: "bool list list option \<Rightarrow> nat \<Rightarrow> int list \<Rightarrow> int list" where
  "subgroup idx i v = (case idx of None \<Rightarrow> v | Some masks \<Rightarrow> map fst (filter snd (zip v (masks ! i))))"

definition idx_fits :: "bool list list option \<Rightarrow> nat \<Rightarrow> int list \<Rightarrow> bool" where
  "idx_fits idx i v = (case idx of None \<Rightarrow> True | Some masks \<Rightarrow> i < length masks \<and> length (masks ! i) = length v)"

section \<open>Properties of \<open>binomial_proportion\<close>\<close>

lemma bp_term_Suc:
  "bp_term n q i * q * (real n + 1 - real (Suc i)) / real (Suc i) = bp_term n q (Suc i)"
proof -
  have "Suc i * (n choose Suc i) = (n - i) * (n choose i)"
    by (metis binomial_absorption binomial_absorb_comp)
  then have "real (Suc i) * real (n choose Suc i) = real (n - i) * real (n choose i)"
    by (metis of_nat_mult)
  moreover have "real (n - i) * real (n choose i) = (real n - real i) * real (n choose i)"
    by (cases "i \<le> n") (simp_all add: of_nat_diff)
  ultimately have "real (n choose Suc i) = (real n - real i) * real (n choose i) / real (Suc i)"
    by (simp add: field_simps)
  then have e: "real (n choose Suc i) = (real n - real i) * real (n choose i) / real (Suc i)" .
  have d: "real n + 1 - real (Suc i) = real n - real i" by simp
  show ?thesis
    unfolding bp_term_def e d by (simp add: mult_ac)
qed

lemma bp_tot_Suc: "bp_tot n q (Suc j) = bp_tot n q j + bp_term n q j"
  by (simp add: bp_tot_def)

lemma bp_sel_Suc:
  "bp_sel n q a b (Suc j) = (if a \<le> j \<and> j \<le> b then bp_sel n q a b j + bp_term n q j else bp_sel n q a b j)"
proof (cases "a \<le> j \<and> j \<le> b")
  case True
  then have "{a..b} \<inter> {..<Suc j} = insert j ({a..b} \<inter> {..<j})"
    by auto
  then show ?thesis using True by (simp add: bp_sel_def)
next
  case False
  then have "{a..b} \<inter> {..<Suc j} = {a..b} \<inter> {..<j}"
    using less_Suc_eq by auto
  then show ?thesis using False by (auto simp: bp_sel_def)
qed

lemma bp_body_scaled:
  assumes "j \<le> n" "0 < c"
  shows "\<exists>c'. 0 < c' \<and>
    bp_body (real n) q (real a) (real b) (real j, c * bp_term n q j, c * bp_sel n q a b j, c * bp_tot n q j)
      = Inr (real (Suc j), c' * bp_term n q (Suc j), c' * bp_sel n q a b (Suc j), c' * bp_tot n q (Suc j))"
proof -
  define tot1 where "tot1 = c * bp_tot n q j + c * bp_term n q j"
  define c' where "c' = (if tot1 > 10 ^ 30 then c / 10 ^ 30 else c)"
  have pos: "0 < c'" using assms by (simp add: c'_def)
  have k: "real j + 1 = real (Suc j)" by simp
  have nz: "real (Suc j) \<noteq> 0" by simp
  have v: "c' * bp_term n q j * q * (real n + 1 - real (Suc j)) / real (Suc j) = c' * bp_term n q (Suc j)"
  proof -
    have "c' * bp_term n q j * q * (real n + 1 - real (Suc j)) / real (Suc j)
        = c' * (bp_term n q j * q * (real n + 1 - real (Suc j)) / real (Suc j))"
      by (simp only: mult.assoc times_divide_eq_right)
    then show ?thesis by (simp only: bp_term_Suc)
  qed
  have tot: "c' * bp_tot n q (Suc j) = (if tot1 > 10 ^ 30 then tot1 / 10 ^ 30 else tot1)"
    by (simp add: c'_def tot1_def bp_tot_Suc algebra_simps add_divide_distrib)
  have sel: "c' * bp_sel n q a b (Suc j) =
      (if tot1 > 10 ^ 30
       then (if real j \<ge> real a \<and> real j \<le> real b then c * bp_sel n q a b j + c * bp_term n q j
             else c * bp_sel n q a b j) / 10 ^ 30
       else (if real j \<ge> real a \<and> real j \<le> real b then c * bp_sel n q a b j + c * bp_term n q j
             else c * bp_sel n q a b j))"
    by (simp add: c'_def bp_sel_Suc algebra_simps add_divide_distrib)
  have v2: "(if tot1 > 10 ^ 30 then c * bp_term n q j / 10 ^ 30 else c * bp_term n q j)
      = c' * bp_term n q j"
    by (simp add: c'_def)
  have "bp_body (real n) q (real a) (real b) (real j, c * bp_term n q j, c * bp_sel n q a b j, c * bp_tot n q j)
      = Inr (real (Suc j), c' * bp_term n q (Suc j), c' * bp_sel n q a b (Suc j), c' * bp_tot n q (Suc j))"
    unfolding bp_body_def Let_def prod.case fdiv_def tot1_def [symmetric] v2 k
    by (simp only: nz if_False sum.case v tot sel)
  with pos show ?thesis by blast
qed

lemma bp_loop_scaled:
  assumes "j \<le> Suc n" "0 < c"
  shows "\<exists>c' k' v'. 0 < c' \<and>
    bp_loop (real n) q (real a) (real b) (real j, c * bp_term n q j, c * bp_sel n q a b j, c * bp_tot n q j)
      = Inr (k', v', c' * bp_sel n q a b (Suc n), c' * bp_tot n q (Suc n))"
  using assms
proof (induction "Suc n - j" arbitrary: j c)
  case 0
  then have j: "j = Suc n" by simp
  have "\<not> real j \<le> real n" unfolding j by simp
  then show ?case
    using 0(3) by (subst bp_loop.simps) (auto simp: j)
next
  case (Suc m)
  then have le: "j \<le> n" by simp
  from bp_body_scaled [OF le Suc.prems(2), of q a b] obtain c' where c': "0 < c'"
    and body: "bp_body (real n) q (real a) (real b) (real j, c * bp_term n q j, c * bp_sel n q a b j, c * bp_tot n q j)
      = Inr (real (Suc j), c' * bp_term n q (Suc j), c' * bp_sel n q a b (Suc j), c' * bp_tot n q (Suc j))"
    by blast
  have "m = Suc n - Suc j" using Suc.hyps(2) by simp
  moreover have "Suc j \<le> Suc n" using le by simp
  ultimately obtain c'' k' v' where "0 < c''" and
    "bp_loop (real n) q (real a) (real b) (real (Suc j), c' * bp_term n q (Suc j), c' * bp_sel n q a b (Suc j), c' * bp_tot n q (Suc j))
      = Inr (k', v', c'' * bp_sel n q a b (Suc n), c'' * bp_tot n q (Suc n))"
    using Suc.hyps(1) [of "Suc j" c'] c' by blast
  moreover have "real j \<le> real n" using le by simp
  ultimately show ?case
    by (subst bp_loop.simps) (auto simp: body simp del: of_nat_Suc)
qed


lemma bp_tot_full:
  assumes "p \<noteq> 1"
  shows "bp_tot n (p / (1 - p)) (Suc n) = 1 / (1 - p) ^ n"
proof -
  have "bp_tot n (p / (1 - p)) (Suc n) = (\<Sum>i\<le>n. real (n choose i) * (p / (1 - p)) ^ i * 1 ^ (n - i))"
    by (simp add: bp_tot_def bp_term_def lessThan_Suc_atMost)
  also have "\<dots> = (p / (1 - p) + 1) ^ n"
    by (rule binomial_ring [symmetric])
  also have "p / (1 - p) + 1 = 1 / (1 - p)"
    using assms by (simp add: field_simps)
  finally show ?thesis by (simp add: power_divide)
qed

lemma bp_term_scaled:
  assumes "p \<noteq> 1" "i \<le> n"
  shows "bp_term n (p / (1 - p)) i * (1 - p) ^ n = real (n choose i) * p ^ i * (1 - p) ^ (n - i)"
proof -
  have "(1 - p) ^ n = (1 - p) ^ i * (1 - p) ^ (n - i)"
    using assms(2) by (simp flip: power_add)
  moreover have "(p / (1 - p)) ^ i * (1 - p) ^ i = p ^ i"
    using assms(1) by (simp add: power_divide)
  ultimately show ?thesis
    by (simp add: bp_term_def mult.assoc)
qed

lemma bp_sel_full:
  assumes "p \<noteq> 1" "b \<le> n"
  shows "bp_sel n (p / (1 - p)) a b (Suc n) * (1 - p) ^ n = binomial_tail n p a b"
proof -
  have "{a..b} \<inter> {..<Suc n} = {a..b}"
    using assms(2) by auto
  then have "bp_sel n (p / (1 - p)) a b (Suc n) * (1 - p) ^ n
      = (\<Sum>i = a..b. bp_term n (p / (1 - p)) i * (1 - p) ^ n)"
    by (simp add: bp_sel_def sum_distrib_right)
  also have "\<dots> = (\<Sum>i = a..b. real (n choose i) * p ^ i * (1 - p) ^ (n - i))"
    using assms by (intro sum.cong refl bp_term_scaled) auto
  finally show ?thesis by (simp add: binomial_tail_def)
qed

lemma binomial_proportion_exact:
  assumes "p \<noteq> 1" "b \<le> n"
  shows "binomial_proportion (real n) p (real a) (real b) = Inr (binomial_tail n p a b)"
proof -
  define q where "q = p / (1 - p)"
  have "bp_term n q 0 = 1" "bp_sel n q a b 0 = 0" "bp_tot n q 0 = 0"
    by (simp_all add: bp_term_def bp_sel_def bp_tot_def)
  with bp_loop_scaled [of 0 n 1 q a b] obtain c' k' v' where c': "0 < c'"
    and loop: "bp_loop (real n) q (real a) (real b) (0, 1, 0, 0)
      = Inr (k', v', c' * bp_sel n q a b (Suc n), c' * bp_tot n q (Suc n))"
    by auto
  have T: "bp_tot n q (Suc n) = 1 / (1 - p) ^ n"
    unfolding q_def by (rule bp_tot_full [OF assms(1)])
  have nz: "c' * bp_tot n q (Suc n) \<noteq> 0"
    using c' assms(1) by (simp add: T)
  have "c' * bp_sel n q a b (Suc n) / (c' * bp_tot n q (Suc n)) = bp_sel n q a b (Suc n) * (1 - p) ^ n"
    using c' by (simp add: T)
  also have "\<dots> = binomial_tail n p a b"
    unfolding q_def by (rule bp_sel_full [OF assms])
  finally have res: "c' * bp_sel n q a b (Suc n) / (c' * bp_tot n q (Suc n)) = binomial_tail n p a b" .
  have "fdiv p (1 - p) = Inr q"
    using assms(1) by (simp add: fdiv_def q_def)
  then show ?thesis
    using nz res by (simp add: binomial_proportion_def loop fdiv_def)
qed


lemma bp_body_total:
  assumes "0 < q" "0 \<le> k" "0 \<le> v" "0 \<le> tot" "k \<le> N" "0 < tot \<or> 0 < v"
  shows "\<exists>k' v' s' tot'. bp_body N q x1 x2 (k, v, s, tot) = Inr (k', v', s', tot')
    \<and> 0 \<le> k' \<and> 0 \<le> v' \<and> 0 < tot'"
proof -
  have k1: "k + 1 \<noteq> 0" "0 < k + 1" using assms(2) by simp_all
  have tot1: "0 < tot + v" using assms(3,4,6) by auto
  have fac: "0 \<le> N + 1 - (k + 1)" using assms(5) by simp
  have v3: "0 \<le> (if tot + v > 10 ^ 30 then v / 10 ^ 30 else v) * q * (N + 1 - (k + 1)) / (k + 1)"
    using assms(1,3) fac k1(2) by (intro divide_nonneg_pos mult_nonneg_nonneg) auto
  have tot2: "0 < (if tot + v > 10 ^ 30 then (tot + v) / 10 ^ 30 else tot + v)"
    using tot1 by simp
  show ?thesis
    unfolding bp_body_def Let_def prod.case fdiv_def
    using k1 v3 tot2 assms(2) by simp
qed

lemma bp_loop_total:
  assumes "0 < q" "0 \<le> fst st" "0 \<le> fst (snd st)" "0 \<le> snd (snd (snd st))"
    and "0 < snd (snd (snd st)) \<or> (fst st \<le> N \<and> 0 < fst (snd st))"
  shows "\<exists>k' v' s' tot'. bp_loop N q x1 x2 st = Inr (k', v', s', tot') \<and> 0 < tot'"
  using assms
proof (induction N q x1 x2 st rule: bp_loop.induct)
  case (1 N q x1 x2 st)
  obtain k v s tot where st: "st = (k, v, s, tot)"
    by (cases st) auto
  show ?case
  proof (cases "k \<le> N")
    case False
    then show ?thesis
      using "1.prems" by (subst bp_loop.simps) (auto simp: st)
  next
    case True
    from "1.prems" have "0 < tot \<or> 0 < v" by (auto simp: st)
    with bp_body_total [of q k v tot N x1 x2 s] "1.prems" True
    obtain k' v' s' tot' where body: "bp_body N q x1 x2 st = Inr (k', v', s', tot')"
      and pos: "0 \<le> k'" "0 \<le> v'" "0 < tot'"
      by (auto simp: st)
    have "\<exists>k'' v'' s'' tot''. bp_loop N q x1 x2 (k', v', s', tot') = Inr (k'', v'', s'', tot'') \<and> 0 < tot''"
      using "1.IH" [OF _ body] True pos "1.prems"(1) by (simp add: st)
    then show ?thesis
      using True by (subst bp_loop.simps) (simp add: st body [unfolded st])
  qed
qed

lemma binomial_proportion_total:
  assumes "0 < p" "p < 1" "0 \<le> N"
  shows "\<exists>r. binomial_proportion N p x1 x2 = Inr r"
proof -
  have q: "0 < p / (1 - p)" using assms by simp
  have "fdiv p (1 - p) = Inr (p / (1 - p))"
    using assms by (simp add: fdiv_def)
  moreover obtain k' v' s' tot' where
    "bp_loop N (p / (1 - p)) x1 x2 (0, 1, 0, 0) = Inr (k', v', s', tot')" "0 < tot'"
    using bp_loop_total [OF q, of "(0, 1, 0, 0)" N x1 x2] assms(3) by auto
  ultimately show ?thesis
    by (simp add: binomial_proportion_def fdiv_def)
qed

lemma binomial_proportion_negative_N:
  assumes "N < 0"
  shows "binomial_proportion N p x1 x2 = Inl ZeroDivisionError"
proof (cases "p = 1")
  case True
  then show ?thesis by (simp add: binomial_proportion_def fdiv_def)
next
  case False
  have "bp_loop N (p / (1 - p)) x1 x2 (0, 1, 0, 0) = Inr (0, 1, 0, 0)"
    using assms by (subst bp_loop.simps) simp
  then show ?thesis
    using False by (simp add: binomial_proportion_def fdiv_def)
qed

text \<open>
  C2. For every integer \<open>N \<ge> 0\<close>, every probability \<open>p\<close> strictly between 0 and 1
  and all integers \<open>0 \<le> x1 \<le> x2 \<le> N\<close>, \<open>binomial_proportion(N, p, x1, x2)\<close>
  returns exactly \<open>P(x1 \<le> X \<le> x2)\<close> for \<open>X ~ Binomial(N, p)\<close>, the sum over \<open>k\<close>
  in \<open>[x1, x2]\<close> of \<open>C(N,k) p^k (1-p)^(N-k)\<close>, in exact arithmetic. The rescaling by
  \<open>10**30\<close> divides \<open>s\<close>, \<open>tot\<close> and \<open>v\<close> alike and cancels in \<open>s/tot\<close>.
\<close>

theorem binomial_proportion_is_binomial_tail:
  assumes "0 < p" "p < 1" "x1 \<le> x2" "x2 \<le> N"
  shows "binomial_proportion (real N) p (real x1) (real x2)
    = Inr (\<Sum>k = x1..x2. real (N choose k) * p ^ k * (1 - p) ^ (N - k))"
proof -
  from assms(2) have "p \<noteq> 1" by simp
  from binomial_proportion_exact [OF this assms(4), of x1] show ?thesis
    by (simp add: binomial_tail_def)
qed

theorem binomial_proportion_is_binomial_tail_witness:
  "(0::real) < 1 / 2 \<and> (1 / 2 :: real) < 1 \<and> (0::nat) \<le> 1 \<and> (1::nat) \<le> 2
   \<and> binomial_proportion 2 (1 / 2) 0 1 = Inr (3 / 4)"
  using binomial_proportion_is_binomial_tail [of "1 / 2" 0 1 2]
  by (simp add: power2_eq_square)

section \<open>Properties of \<open>binomial_proportion_ci\<close>\<close>

lemma ci_bisects_bracket:
  assumes "ci_bracket lo hi st" "ci_bisects st st'"
  shows "ci_bracket lo hi st' \<and> ci_width st' = ci_width st / 2"
  using assms by (cases st) (auto simp: ci_bracket_def ci_bisects_def ci_width_def)

lemma ci_bracket_unit:
  assumes "ci_bracket lo hi (v, vsL, vsH)" "0 \<le> lo" "hi \<le> 1"
  shows "0 < v \<and> v < 1 \<and> lo < v \<and> v < hi"
  using assms by (auto simp: ci_bracket_def)

lemma ci_low_body_bisects:
  assumes "ci_bracket lo hi st" "0 \<le> lo" "hi \<le> 1" "0 \<le> denominator"
  shows "\<exists>st'. ci_low_body numerator denominator p st = Inr st' \<and> ci_bisects st st'"
proof -
  obtain v vsL vsH where st: "st = (v, vsL, vsH)" by (cases st) auto
  from ci_bracket_unit [OF assms(1) [unfolded st] assms(2,3)] have "0 < v" "v < 1" by auto
  from binomial_proportion_total [OF this assms(4)] obtain r
    where "binomial_proportion denominator v numerator denominator = Inr r" by blast
  then have "ci_low_body numerator denominator p st
      = Inr (if p < r then ((vsL + v) / 2, vsL, v) else ((v + vsH) / 2, v, vsH))"
    by (simp add: st ci_low_body_def)
  moreover have "ci_bisects st (if p < r then ((vsL + v) / 2, vsL, v) else ((v + vsH) / 2, v, vsH))"
    by (simp add: st ci_bisects_def)
  ultimately show ?thesis by blast
qed

lemma ci_high_body_bisects:
  assumes "ci_bracket lo hi st" "0 \<le> lo" "hi \<le> 1" "0 \<le> denominator"
  shows "\<exists>st'. ci_high_body numerator denominator p st = Inr st' \<and> ci_bisects st st'"
proof -
  obtain v vsL vsH where st: "st = (v, vsL, vsH)" by (cases st) auto
  from ci_bracket_unit [OF assms(1) [unfolded st] assms(2,3)] have "0 < v" "v < 1" by auto
  from binomial_proportion_total [OF this assms(4)] obtain r
    where "binomial_proportion denominator v 0 numerator = Inr r" by blast
  then have "ci_high_body numerator denominator p st
      = Inr (if r < p then ((vsL + v) / 2, vsL, v) else ((v + vsH) / 2, v, vsH))"
    by (simp add: st ci_high_body_def)
  moreover have "ci_bisects st (if r < p then ((vsL + v) / 2, vsL, v) else ((v + vsH) / 2, v, vsH))"
    by (simp add: st ci_bisects_def)
  ultimately show ?thesis by blast
qed

lemma ci_guard_width: "ci_guard st \<longleftrightarrow> 1 / 10 ^ 5 < ci_width st"
  by (cases st) (simp add: ci_guard_def ci_width_def)

lemma ci_iter_bracket:
  assumes body: "\<And>st. ci_bracket lo hi st \<Longrightarrow> \<exists>st'. body st = Inr st' \<and> ci_bisects st st'"
    and "ci_bracket lo hi st"
  shows "\<exists>st'. ci_iter body k st = Inr st' \<and> ci_bracket lo hi st'
    \<and> (ci_width st \<le> 2 ^ k / 10 ^ 5 \<longrightarrow> \<not> ci_guard st')"
  using assms(2)
proof (induction k arbitrary: st)
  case 0
  then show ?case by (simp add: ci_guard_width)
next
  case (Suc k)
  show ?case
  proof (cases "ci_guard st")
    case False
    with Suc.prems show ?thesis by simp
  next
    case True
    from body [OF Suc.prems] obtain st1 where st1: "body st = Inr st1" "ci_bisects st st1"
      by blast
    from ci_bisects_bracket [OF Suc.prems st1(2)]
    have br: "ci_bracket lo hi st1" and w: "ci_width st1 = ci_width st / 2" by auto
    from Suc.IH [OF br] obtain st' where it: "ci_iter body k st1 = Inr st'" "ci_bracket lo hi st'"
      "ci_width st1 \<le> 2 ^ k / 10 ^ 5 \<longrightarrow> \<not> ci_guard st'"
      by blast
    have "ci_width st \<le> 2 ^ Suc k / 10 ^ 5 \<Longrightarrow> ci_width st1 \<le> 2 ^ k / 10 ^ 5"
      unfolding w by simp
    with it show ?thesis
      using True st1(1) by auto
  qed
qed

lemma ci_low_loop_iter:
  assumes "ci_iter (ci_low_body numerator denominator p) k st = Inr st'" "\<not> ci_guard st'"
  shows "ci_low_loop numerator denominator p st = Inr st'"
  using assms
proof (induction k arbitrary: st)
  case 0
  then show ?case by (subst ci_low_loop.simps) simp
next
  case (Suc k)
  then show ?case
    by (subst ci_low_loop.simps) (auto split: if_splits sum.splits)
qed

lemma ci_high_loop_iter:
  assumes "ci_iter (ci_high_body numerator denominator p) k st = Inr st'" "\<not> ci_guard st'"
  shows "ci_high_loop numerator denominator p st = Inr st'"
  using assms
proof (induction k arbitrary: st)
  case 0
  then show ?case by (subst ci_high_loop.simps) simp
next
  case (Suc k)
  then show ?case
    by (subst ci_high_loop.simps) (auto split: if_splits sum.splits)
qed

text \<open>The two loops of the interval solver on a valid proportion.\<close>

lemma ci_low_loop_valid:
  assumes "0 < numerator" "numerator \<le> denominator"
  defines "ratio \<equiv> numerator / denominator"
  shows "\<exists>v vsL vsH. ci_iter (ci_low_body numerator denominator p) 17 (ci_low_init ratio) = Inr (v, vsL, vsH)
    \<and> ci_low_loop numerator denominator p (ci_low_init ratio) = Inr (v, vsL, vsH)
    \<and> ci_bracket 0 ratio (v, vsL, vsH) \<and> vsH - vsL \<le> 1 / 10 ^ 5"
proof -
  have d: "0 < denominator" using assms by simp
  have r: "0 < ratio" "ratio \<le> 1" using assms d by (simp_all add: ratio_def)
  have init: "ci_bracket 0 ratio (ci_low_init ratio)"
    using r by (simp add: ci_bracket_def ci_low_init_def)
  have w: "ci_width (ci_low_init ratio) \<le> 2 ^ 17 / 10 ^ 5"
    using r by (simp add: ci_width_def ci_low_init_def)
  have "\<exists>st'. ci_iter (ci_low_body numerator denominator p) 17 (ci_low_init ratio) = Inr st'
      \<and> ci_bracket 0 ratio st'
      \<and> (ci_width (ci_low_init ratio) \<le> 2 ^ 17 / 10 ^ 5 \<longrightarrow> \<not> ci_guard st')"
  proof (rule ci_iter_bracket [OF _ init])
    fix st assume "ci_bracket 0 ratio st"
    then show "\<exists>st'. ci_low_body numerator denominator p st = Inr st' \<and> ci_bisects st st'"
      using r d by (intro ci_low_body_bisects [of 0 ratio]) auto
  qed
  with w obtain st' where st': "ci_iter (ci_low_body numerator denominator p) 17 (ci_low_init ratio) = Inr st'"
    "ci_bracket 0 ratio st'" "\<not> ci_guard st'"
    by blast
  obtain v vsL vsH where "st' = (v, vsL, vsH)" by (cases st') auto
  with st' ci_low_loop_iter [OF st'(1,3)] show ?thesis
    by (auto simp: ci_guard_def)
qed

lemma ci_high_loop_valid:
  assumes "0 \<le> numerator" "numerator < denominator"
  defines "ratio \<equiv> numerator / denominator"
  shows "\<exists>v vsL vsH. ci_iter (ci_high_body numerator denominator p) 17 (ci_high_init ratio) = Inr (v, vsL, vsH)
    \<and> ci_high_loop numerator denominator p (ci_high_init ratio) = Inr (v, vsL, vsH)
    \<and> ci_bracket ratio 1 (v, vsL, vsH) \<and> vsH - vsL \<le> 1 / 10 ^ 5"
proof -
  have d: "0 < denominator" using assms by simp
  have r: "0 \<le> ratio" "ratio < 1" using assms d by (simp_all add: ratio_def)
  have init: "ci_bracket ratio 1 (ci_high_init ratio)"
    using r by (simp add: ci_bracket_def ci_high_init_def)
  have w: "ci_width (ci_high_init ratio) \<le> 2 ^ 17 / 10 ^ 5"
    using r by (simp add: ci_width_def ci_high_init_def)
  have "\<exists>st'. ci_iter (ci_high_body numerator denominator p) 17 (ci_high_init ratio) = Inr st'
      \<and> ci_bracket ratio 1 st'
      \<and> (ci_width (ci_high_init ratio) \<le> 2 ^ 17 / 10 ^ 5 \<longrightarrow> \<not> ci_guard st')"
  proof (rule ci_iter_bracket [OF _ init])
    fix st assume "ci_bracket ratio 1 st"
    then show "\<exists>st'. ci_high_body numerator denominator p st = Inr st' \<and> ci_bisects st st'"
      using r d by (intro ci_high_body_bisects [of ratio 1]) auto
  qed
  with w obtain st' where st': "ci_iter (ci_high_body numerator denominator p) 17 (ci_high_init ratio) = Inr st'"
    "ci_bracket ratio 1 st'" "\<not> ci_guard st'"
    by blast
  obtain v vsL vsH where "st' = (v, vsL, vsH)" by (cases st') auto
  with st' ci_high_loop_iter [OF st'(1,3)] show ?thesis
    by (auto simp: ci_guard_def)
qed

lemma binomial_proportion_ci_valid:
  assumes "0 \<le> numerator" "numerator \<le> denominator" "0 < denominator"
  shows "\<exists>low high. binomial_proportion_ci numerator denominator alpha = Inr (low, high)
    \<and> 0 \<le> low \<and> low \<le> numerator / denominator \<and> numerator / denominator \<le> high \<and> high \<le> 1"
proof -
  define ratio where "ratio = numerator / denominator"
  define p where "p = alpha / 2"
  have r: "0 \<le> ratio" "ratio \<le> 1" using assms by (simp_all add: ratio_def)
  have div: "fdiv numerator denominator = Inr ratio"
    using assms by (simp add: fdiv_def ratio_def)
  have low: "\<exists>low. (if numerator = 0 then Inr 0
        else case ci_low_loop numerator denominator p (ci_low_init ratio) of
               Inl e \<Rightarrow> Inl e
             | Inr (v, vsL, vsH) \<Rightarrow> Inr v) = Inr low \<and> 0 \<le> low \<and> low \<le> ratio"
  proof (cases "numerator = 0")
    case True
    then show ?thesis using r by simp
  next
    case False
    with assms have "0 < numerator" by simp
    from ci_low_loop_valid [OF this assms(2), of p] obtain v vsL vsH
      where "ci_low_loop numerator denominator p (ci_low_init ratio) = Inr (v, vsL, vsH)"
        and "ci_bracket 0 ratio (v, vsL, vsH)"
      unfolding ratio_def by blast
    then show ?thesis
      using False by (auto simp: ci_bracket_def)
  qed
  have high: "\<exists>high. (if numerator = denominator then Inr 1
        else case ci_high_loop numerator denominator p (ci_high_init ratio) of
               Inl e \<Rightarrow> Inl e
             | Inr (v, vsL, vsH) \<Rightarrow> Inr v) = Inr high \<and> ratio \<le> high \<and> high \<le> 1"
  proof (cases "numerator = denominator")
    case True
    then show ?thesis using r by simp
  next
    case False
    with assms have "numerator < denominator" by simp
    from ci_high_loop_valid [OF assms(1) this, of p] obtain v vsL vsH
      where "ci_high_loop numerator denominator p (ci_high_init ratio) = Inr (v, vsL, vsH)"
        and "ci_bracket ratio 1 (v, vsL, vsH)"
      unfolding ratio_def by blast
    then show ?thesis
      using False by (auto simp: ci_bracket_def)
  qed
  from low obtain lo where lo: "(if numerator = 0 then Inr 0
        else case ci_low_loop numerator denominator p (ci_low_init ratio) of
               Inl e \<Rightarrow> Inl e
             | Inr (v, vsL, vsH) \<Rightarrow> Inr v) = Inr lo" "0 \<le> lo" "lo \<le> ratio"
    by blast
  from high obtain hi where hi: "(if numerator = denominator then Inr 1
        else case ci_high_loop numerator denominator p (ci_high_init ratio) of
               Inl e \<Rightarrow> Inl e
             | Inr (v, vsL, vsH) \<Rightarrow> Inr v) = Inr hi" "ratio \<le> hi" "hi \<le> 1"
    by blast
  have "binomial_proportion_ci numerator denominator alpha = Inr (lo, hi)"
    unfolding binomial_proportion_ci_def Let_def p_def [symmetric] div sum.case lo hi ..
  with lo(2,3) hi(2,3) show ?thesis
    unfolding ratio_def by blast
qed

lemma ci_low_states:
  assumes "0 < numerator" "numerator \<le> denominator"
  shows "\<exists>st. ci_iter (ci_low_body numerator denominator p) k (ci_low_init (numerator / denominator)) = Inr st
    \<and> ci_bracket 0 (numerator / denominator) st"
proof -
  define ratio where "ratio = numerator / denominator"
  have d: "0 < denominator" using assms by simp
  have r: "0 < ratio" "ratio \<le> 1" using assms d by (simp_all add: ratio_def)
  have init: "ci_bracket 0 ratio (ci_low_init ratio)"
    using r by (simp add: ci_bracket_def ci_low_init_def)
  have "\<exists>st'. ci_iter (ci_low_body numerator denominator p) k (ci_low_init ratio) = Inr st'
      \<and> ci_bracket 0 ratio st'
      \<and> (ci_width (ci_low_init ratio) \<le> 2 ^ k / 10 ^ 5 \<longrightarrow> \<not> ci_guard st')"
  proof (rule ci_iter_bracket [OF _ init])
    fix st assume "ci_bracket 0 ratio st"
    then show "\<exists>st'. ci_low_body numerator denominator p st = Inr st' \<and> ci_bisects st st'"
      using r d by (intro ci_low_body_bisects [of 0 ratio]) auto
  qed
  then show ?thesis unfolding ratio_def by blast
qed

lemma ci_high_states:
  assumes "0 \<le> numerator" "numerator < denominator"
  shows "\<exists>st. ci_iter (ci_high_body numerator denominator p) k (ci_high_init (numerator / denominator)) = Inr st
    \<and> ci_bracket (numerator / denominator) 1 st"
proof -
  define ratio where "ratio = numerator / denominator"
  have d: "0 < denominator" using assms by simp
  have r: "0 \<le> ratio" "ratio < 1" using assms d by (simp_all add: ratio_def)
  have init: "ci_bracket ratio 1 (ci_high_init ratio)"
    using r by (simp add: ci_bracket_def ci_high_init_def)
  have "\<exists>st'. ci_iter (ci_high_body numerator denominator p) k (ci_high_init ratio) = Inr st'
      \<and> ci_bracket ratio 1 st'
      \<and> (ci_width (ci_high_init ratio) \<le> 2 ^ k / 10 ^ 5 \<longrightarrow> \<not> ci_guard st')"
  proof (rule ci_iter_bracket [OF _ init])
    fix st assume "ci_bracket ratio 1 st"
    then show "\<exists>st'. ci_high_body numerator denominator p st = Inr st' \<and> ci_bisects st st'"
      using r d by (intro ci_high_body_bisects [of ratio 1]) auto
  qed
  then show ?thesis unfolding ratio_def by blast
qed

lemma binomial_proportion_empty_range:
  assumes "p \<noteq> 1"
  shows "binomial_proportion 2 p 3 2 = Inr 0"
  using binomial_proportion_exact [OF assms, of 2 2 3] by (simp add: binomial_tail_def)

lemma ci_low_body_3_2:
  assumes "v \<noteq> 1"
  shows "ci_low_body 3 2 (1 / 40) (v, vsL, vsH) = Inr ((v + vsH) / 2, v, vsH)"
  by (simp add: ci_low_body_def binomial_proportion_empty_range [OF assms])

lemma ci_low_loop_3_2:
  "ci_low_loop 3 2 (1 / 40) (3 / 4, 0, 3 / 2) = Inr (1572861 / 1048576, 786429 / 524288, 3 / 2)"
  by (simp add: ci_low_loop.simps ci_guard_def ci_low_body_3_2)


text \<open>
  C1, as the code has it. The claim quantifies over every pair with
  \<open>0 \<le> numerator \<le> denominator\<close>, which includes \<open>(0, 0)\<close>; there
  \<open>ratio = numerator/denominator\<close> raises \<open>ZeroDivisionError\<close> before any interval
  is built.
\<close>

theorem ci_zero_denominator_counterexample:
  "binomial_proportion_ci 0 0 (5 / 100) = Inl ZeroDivisionError"
  by (simp add: binomial_proportion_ci_def fdiv_def)

text \<open>
  C1 (amended). For every pair with \<open>0 \<le> numerator \<le> denominator\<close> and
  \<open>denominator > 0\<close>, and every \<open>alpha\<close> (so also the default 0.05),
  \<open>binomial_proportion_ci\<close> returns an interval \<open>(low, high)\<close> with
  \<open>low \<le> numerator/denominator \<le> high\<close> and both bounds in \<open>[0, 1]\<close>.
\<close>

theorem ci_contains_ratio:
  assumes "0 \<le> numerator" "numerator \<le> denominator" "0 < denominator"
  shows "\<exists>low high. binomial_proportion_ci numerator denominator alpha = Inr (low, high)
    \<and> low \<le> numerator / denominator \<and> numerator / denominator \<le> high
    \<and> 0 \<le> low \<and> low \<le> 1 \<and> 0 \<le> high \<and> high \<le> 1"
proof -
  from binomial_proportion_ci_valid [OF assms, of alpha] obtain low high
    where "binomial_proportion_ci numerator denominator alpha = Inr (low, high)"
      "0 \<le> low" "low \<le> numerator / denominator" "numerator / denominator \<le> high" "high \<le> 1"
    by blast
  then show ?thesis
    by (intro exI [of _ low] exI [of _ high]) auto
qed

theorem ci_contains_ratio_witness:
  "(0::real) \<le> 1 \<and> (1::real) \<le> 2 \<and> (0::real) < 2
   \<and> (\<exists>low high. binomial_proportion_ci 1 2 (5 / 100) = Inr (low, high)
        \<and> low \<le> 1 / 2 \<and> 1 / 2 \<le> high \<and> 0 \<le> low \<and> low \<le> 1 \<and> 0 \<le> high \<and> high \<le> 1)"
  using ci_contains_ratio [of 1 2 "5 / 100"] by simp


text \<open>
  C3. For every pair with \<open>0 \<le> numerator \<le> denominator\<close> and \<open>denominator > 0\<close>,
  each bisection loop that \<open>binomial_proportion_ci\<close> enters (the lower one when
  \<open>numerator \<noteq> 0\<close>, the upper one when \<open>numerator \<noteq> denominator\<close>) returns, within
  17 passes, a state whose bracket \<open>vsH - vsL\<close> is at most \<open>10**-5\<close>; in every state
  the loop reaches, one more pass of the body succeeds and halves the bracket; and
  \<open>binomial_proportion_ci\<close> returns an interval.
\<close>

theorem ci_bisection_terminates:
  assumes "0 \<le> numerator" "numerator \<le> denominator" "0 < denominator"
  shows "(numerator \<noteq> 0 \<longrightarrow>
           (\<exists>v vsL vsH.
              ci_low_loop numerator denominator (alpha / 2) (ci_low_init (numerator / denominator))
                = Inr (v, vsL, vsH)
              \<and> ci_iter (ci_low_body numerator denominator (alpha / 2)) 17
                  (ci_low_init (numerator / denominator)) = Inr (v, vsL, vsH)
              \<and> vsH - vsL \<le> 1 / 10 ^ 5)
           \<and> (\<forall>k st. ci_iter (ci_low_body numerator denominator (alpha / 2)) k
                        (ci_low_init (numerator / denominator)) = Inr st \<longrightarrow>
                 (\<exists>st'. ci_low_body numerator denominator (alpha / 2) st = Inr st'
                    \<and> ci_width st' = ci_width st / 2)))
       \<and> (numerator \<noteq> denominator \<longrightarrow>
           (\<exists>v vsL vsH.
              ci_high_loop numerator denominator (alpha / 2) (ci_high_init (numerator / denominator))
                = Inr (v, vsL, vsH)
              \<and> ci_iter (ci_high_body numerator denominator (alpha / 2)) 17
                  (ci_high_init (numerator / denominator)) = Inr (v, vsL, vsH)
              \<and> vsH - vsL \<le> 1 / 10 ^ 5)
           \<and> (\<forall>k st. ci_iter (ci_high_body numerator denominator (alpha / 2)) k
                        (ci_high_init (numerator / denominator)) = Inr st \<longrightarrow>
                 (\<exists>st'. ci_high_body numerator denominator (alpha / 2) st = Inr st'
                    \<and> ci_width st' = ci_width st / 2)))
       \<and> (\<exists>low high. binomial_proportion_ci numerator denominator alpha = Inr (low, high))"
proof (intro conjI impI allI)
  assume "numerator \<noteq> 0"
  with assms have pos: "0 < numerator" by simp
  from ci_low_loop_valid [OF pos assms(2), of "alpha / 2"]
  show "\<exists>v vsL vsH.
      ci_low_loop numerator denominator (alpha / 2) (ci_low_init (numerator / denominator))
        = Inr (v, vsL, vsH)
      \<and> ci_iter (ci_low_body numerator denominator (alpha / 2)) 17
          (ci_low_init (numerator / denominator)) = Inr (v, vsL, vsH)
      \<and> vsH - vsL \<le> 1 / 10 ^ 5"
    by blast
next
  fix k st
  assume "numerator \<noteq> 0"
    and it: "ci_iter (ci_low_body numerator denominator (alpha / 2)) k
      (ci_low_init (numerator / denominator)) = Inr st"
  with assms have pos: "0 < numerator" by simp
  have unit: "0 \<le> (0::real)" "numerator / denominator \<le> 1" "0 \<le> denominator"
    using assms by simp_all
  from ci_low_states [OF pos assms(2), of "alpha / 2" k] it
  have br: "ci_bracket 0 (numerator / denominator) st" by simp
  from ci_low_body_bisects [OF br unit, of numerator "alpha / 2"] obtain st'
    where "ci_low_body numerator denominator (alpha / 2) st = Inr st'" "ci_bisects st st'"
    by blast
  with ci_bisects_bracket [OF br this(2)]
  show "\<exists>st'. ci_low_body numerator denominator (alpha / 2) st = Inr st'
      \<and> ci_width st' = ci_width st / 2"
    by blast
next
  assume "numerator \<noteq> denominator"
  with assms have lt: "numerator < denominator" by simp
  from ci_high_loop_valid [OF assms(1) lt, of "alpha / 2"]
  show "\<exists>v vsL vsH.
      ci_high_loop numerator denominator (alpha / 2) (ci_high_init (numerator / denominator))
        = Inr (v, vsL, vsH)
      \<and> ci_iter (ci_high_body numerator denominator (alpha / 2)) 17
          (ci_high_init (numerator / denominator)) = Inr (v, vsL, vsH)
      \<and> vsH - vsL \<le> 1 / 10 ^ 5"
    by blast
next
  fix k st
  assume "numerator \<noteq> denominator"
    and it: "ci_iter (ci_high_body numerator denominator (alpha / 2)) k
      (ci_high_init (numerator / denominator)) = Inr st"
  with assms have lt: "numerator < denominator" by simp
  have unit: "0 \<le> numerator / denominator" "(1::real) \<le> 1" "0 \<le> denominator"
    using assms by simp_all
  from ci_high_states [OF assms(1) lt, of "alpha / 2" k] it
  have br: "ci_bracket (numerator / denominator) 1 st" by simp
  from ci_high_body_bisects [OF br unit, of numerator "alpha / 2"] obtain st'
    where "ci_high_body numerator denominator (alpha / 2) st = Inr st'" "ci_bisects st st'"
    by blast
  with ci_bisects_bracket [OF br this(2)]
  show "\<exists>st'. ci_high_body numerator denominator (alpha / 2) st = Inr st'
      \<and> ci_width st' = ci_width st / 2"
    by blast
next
  from binomial_proportion_ci_valid [OF assms, of alpha]
  show "\<exists>low high. binomial_proportion_ci numerator denominator alpha = Inr (low, high)"
    by blast
qed


theorem ci_bisection_terminates_witness:
  "(\<exists>v vsL vsH. ci_low_loop 1 2 (5 / 100 / 2) (ci_low_init (1 / 2)) = Inr (v, vsL, vsH)
      \<and> ci_iter (ci_low_body 1 2 (5 / 100 / 2)) 17 (ci_low_init (1 / 2)) = Inr (v, vsL, vsH)
      \<and> vsH - vsL \<le> 1 / 10 ^ 5)
   \<and> (\<exists>st'. ci_low_body 1 2 (5 / 100 / 2) (ci_low_init (1 / 2)) = Inr st'
      \<and> ci_width st' = ci_width (ci_low_init (1 / 2)) / 2)
   \<and> (\<exists>v vsL vsH. ci_high_loop 1 2 (5 / 100 / 2) (ci_high_init (1 / 2)) = Inr (v, vsL, vsH)
      \<and> ci_iter (ci_high_body 1 2 (5 / 100 / 2)) 17 (ci_high_init (1 / 2)) = Inr (v, vsL, vsH)
      \<and> vsH - vsL \<le> 1 / 10 ^ 5)
   \<and> (\<exists>st'. ci_high_body 1 2 (5 / 100 / 2) (ci_high_init (1 / 2)) = Inr st'
      \<and> ci_width st' = ci_width (ci_high_init (1 / 2)) / 2)
   \<and> (\<exists>low high. binomial_proportion_ci 1 2 (5 / 100) = Inr (low, high))"
proof -
  have hyps: "(0::real) \<le> 1" "(1::real) \<le> 2" "(0::real) < 2" "(1::real) \<noteq> 0" "(1::real) \<noteq> 2"
    by simp_all
  note inst = ci_bisection_terminates [OF hyps(1-3), of "5 / 100"]
  have low0: "ci_iter (ci_low_body 1 2 (5 / 100 / 2)) 0 (ci_low_init (1 / 2)) = Inr (ci_low_init (1 / 2))"
    and high0: "ci_iter (ci_high_body 1 2 (5 / 100 / 2)) 0 (ci_high_init (1 / 2)) = Inr (ci_high_init (1 / 2))"
    by simp_all
  from inst hyps(4) low0 have low: "\<exists>st'. ci_low_body 1 2 (5 / 100 / 2) (ci_low_init (1 / 2)) = Inr st'
      \<and> ci_width st' = ci_width (ci_low_init (1 / 2)) / 2"
    by blast
  from inst hyps(5) high0 have high: "\<exists>st'. ci_high_body 1 2 (5 / 100 / 2) (ci_high_init (1 / 2)) = Inr st'
      \<and> ci_width st' = ci_width (ci_high_init (1 / 2)) / 2"
    by blast
  from inst hyps(4,5) low high show ?thesis
    by blast
qed

text \<open>
  C10. For every pair with \<open>0 \<le> numerator \<le> denominator\<close> and \<open>denominator > 0\<close>,
  the value \<open>v\<close> of every state a bisection loop of \<open>binomial_proportion_ci\<close> reaches
  (after any number \<open>k\<close> of passes), which is the probability argument the next call of
  \<open>binomial_proportion\<close> receives, lies strictly between 0 and 1: the lower loop keeps
  \<open>0 < v \<le> ratio\<close>, the upper loop keeps \<open>ratio \<le> v < 1\<close>, so the divisor \<open>1 - v\<close>
  of \<open>q = p/(1-p)\<close> is never zero.
\<close>

theorem ci_probability_argument_in_unit_interval:
  assumes "0 \<le> numerator" "numerator \<le> denominator" "0 < denominator"
  shows "(numerator \<noteq> 0 \<longrightarrow>
           (\<forall>k v vsL vsH.
              ci_iter (ci_low_body numerator denominator p) k
                (ci_low_init (numerator / denominator)) = Inr (v, vsL, vsH) \<longrightarrow>
              0 < v \<and> v \<le> numerator / denominator \<and> v < 1 \<and> 1 - v \<noteq> 0
              \<and> fdiv v (1 - v) = Inr (v / (1 - v))))
       \<and> (numerator \<noteq> denominator \<longrightarrow>
           (\<forall>k v vsL vsH.
              ci_iter (ci_high_body numerator denominator p) k
                (ci_high_init (numerator / denominator)) = Inr (v, vsL, vsH) \<longrightarrow>
              0 < v \<and> numerator / denominator \<le> v \<and> v < 1 \<and> 1 - v \<noteq> 0
              \<and> fdiv v (1 - v) = Inr (v / (1 - v))))"
proof -
  have low: "0 < v \<and> v \<le> numerator / denominator \<and> v < 1 \<and> 1 - v \<noteq> 0
      \<and> fdiv v (1 - v) = Inr (v / (1 - v))"
    if "numerator \<noteq> 0"
      and it: "ci_iter (ci_low_body numerator denominator p) k
        (ci_low_init (numerator / denominator)) = Inr (v, vsL, vsH)"
    for k v vsL vsH
  proof -
    from that assms have pos: "0 < numerator" by simp
    from ci_low_states [OF pos assms(2), of p k] it
    have br: "ci_bracket 0 (numerator / denominator) (v, vsL, vsH)" by simp
    have "numerator / denominator \<le> 1" using assms by simp
    from ci_bracket_unit [OF br _ this] show ?thesis
      by (simp add: fdiv_def)
  qed
  have high: "0 < v \<and> numerator / denominator \<le> v \<and> v < 1 \<and> 1 - v \<noteq> 0
      \<and> fdiv v (1 - v) = Inr (v / (1 - v))"
    if "numerator \<noteq> denominator"
      and it: "ci_iter (ci_high_body numerator denominator p) k
        (ci_high_init (numerator / denominator)) = Inr (v, vsL, vsH)"
    for k v vsL vsH
  proof -
    from that assms have lt: "numerator < denominator" by simp
    from ci_high_states [OF assms(1) lt, of p k] it
    have br: "ci_bracket (numerator / denominator) 1 (v, vsL, vsH)" by simp
    have "0 \<le> numerator / denominator" using assms by simp
    from ci_bracket_unit [OF br this] show ?thesis
      by (simp add: fdiv_def)
  qed
  show ?thesis
    using low high by blast
qed

theorem ci_probability_argument_in_unit_interval_witness:
  "0 < (1 / 4 :: real) \<and> (1 / 4 :: real) \<le> 1 / 2 \<and> (1 / 4 :: real) < 1 \<and> 1 - (1 / 4 :: real) \<noteq> 0
   \<and> fdiv (1 / 4) (1 - 1 / 4) = Inr (1 / 4 / (1 - 1 / 4))
   \<and> 0 < (3 / 4 :: real) \<and> (1 / 2 :: real) \<le> 3 / 4 \<and> (3 / 4 :: real) < 1 \<and> 1 - (3 / 4 :: real) \<noteq> 0
   \<and> fdiv (3 / 4) (1 - 3 / 4) = Inr (3 / 4 / (1 - 3 / 4))"
proof -
  have hyps: "(0::real) \<le> 1" "(1::real) \<le> 2" "(0::real) < 2" "(1::real) \<noteq> 0" "(1::real) \<noteq> 2"
    by simp_all
  note inst = ci_probability_argument_in_unit_interval [OF hyps(1-3), of "1 / 40"]
  have low0: "ci_iter (ci_low_body 1 2 (1 / 40)) 0 (ci_low_init (1 / 2)) = Inr (1 / 4, 0, 1 / 2)"
    and high0: "ci_iter (ci_high_body 1 2 (1 / 40)) 0 (ci_high_init (1 / 2)) = Inr (3 / 4, 1 / 2, 1)"
    by (simp_all add: ci_low_init_def ci_high_init_def)
  from inst hyps(4) low0 have "0 < (1 / 4 :: real) \<and> (1 / 4 :: real) \<le> 1 / 2 \<and> (1 / 4 :: real) < 1
      \<and> 1 - (1 / 4 :: real) \<noteq> 0 \<and> fdiv (1 / 4) (1 - 1 / 4) = Inr (1 / 4 / (1 - 1 / 4))"
    by blast
  moreover from inst hyps(5) high0 have "0 < (3 / 4 :: real) \<and> (1 / 2 :: real) \<le> 3 / 4 \<and> (3 / 4 :: real) < 1
      \<and> 1 - (3 / 4 :: real) \<noteq> 0 \<and> fdiv (3 / 4) (1 - 3 / 4) = Inr (3 / 4 / (1 - 3 / 4))"
    by blast
  ultimately show ?thesis by blast
qed

text \<open>
  C4, as the code has it. \<open>binomial_proportion_ci\<close> validates nothing and has no
  \<open>InvalidProportion\<close> condition. With \<open>denominator < numerator\<close> it can return a
  pair: for \<open>(3, 2)\<close> the tail probability over the empty range \<open>[3, 2]\<close> is 0, the
  lower loop walks \<open>v\<close> up to \<open>ratio = 1.5\<close>, and the upper loop is not entered.
\<close>

theorem ci_denominator_below_numerator_counterexample:
  "binomial_proportion_ci 3 2 (5 / 100) = Inr (1572861 / 1048576, 5 / 4)"
  by (simp add: binomial_proportion_ci_def fdiv_def ci_low_init_def ci_high_init_def
      ci_low_loop_3_2 ci_high_loop.simps ci_guard_def)


text \<open>
  C4 (amended). \<open>binomial_proportion_ci\<close> fails with \<open>ZeroDivisionError\<close> (the code
  has no \<open>InvalidProportion\<close>) whenever the denominator is zero or negative, whatever
  the numerator: for \<open>denominator = 0\<close> that failure is its one behaviour, raised by
  \<open>numerator/denominator\<close>; for \<open>denominator < 0\<close> the first call of
  \<open>binomial_proportion\<close> runs no iteration and divides \<open>0.0/0.0\<close>.
\<close>

theorem ci_nonpositive_denominator_fails:
  assumes "denominator \<le> 0"
  shows "binomial_proportion_ci numerator denominator alpha = Inl ZeroDivisionError"
proof (cases "denominator = 0")
  case True
  then show ?thesis by (simp add: binomial_proportion_ci_def fdiv_def)
next
  case False
  with assms have neg: "denominator < 0" by simp
  define ratio where "ratio = numerator / denominator"
  define p where "p = alpha / 2"
  have div: "fdiv numerator denominator = Inr ratio"
    using False by (simp add: fdiv_def ratio_def)
  have low_fails: "ci_low_loop numerator denominator p st = Inl ZeroDivisionError"
    if "ci_guard st" for st
    using that binomial_proportion_negative_N [OF neg]
    by (subst ci_low_loop.simps) (simp add: ci_low_body_def split: prod.splits)
  have high_fails: "ci_high_loop numerator denominator p st = Inl ZeroDivisionError"
    if "ci_guard st" for st
    using that binomial_proportion_negative_N [OF neg]
    by (subst ci_high_loop.simps) (simp add: ci_high_body_def split: prod.splits)
  have low_skips: "ci_low_loop numerator denominator p st = Inr st"
    if "\<not> ci_guard st" for st
    using that by (subst ci_low_loop.simps) simp
  show ?thesis
  proof (cases "numerator \<noteq> 0 \<and> ci_guard (ci_low_init ratio)")
    case True
    then show ?thesis
      unfolding binomial_proportion_ci_def Let_def p_def [symmetric] div sum.case
      by (simp add: low_fails)
  next
    case skip: False
    have small: "ratio \<le> 1 / 10 ^ 5"
      using skip by (auto simp: ci_guard_def ci_low_init_def ratio_def)
    then have "ratio \<noteq> 1" by auto
    then have ne: "numerator \<noteq> denominator"
      using False by (auto simp: ratio_def)
    have "ci_guard (ci_high_init ratio)"
      using small by (simp add: ci_guard_def ci_high_init_def)
    then have high: "ci_high_loop numerator denominator p (ci_high_init ratio) = Inl ZeroDivisionError"
      by (rule high_fails)
    show ?thesis
    proof (cases "numerator = 0")
      case True
      with ne high show ?thesis
        unfolding binomial_proportion_ci_def Let_def p_def [symmetric] div sum.case
        by simp
    next
      case nz: False
      with skip have "\<not> ci_guard (ci_low_init ratio)" by simp
      from low_skips [OF this] nz ne high show ?thesis
        unfolding binomial_proportion_ci_def Let_def p_def [symmetric] div sum.case
        by (simp split: prod.splits)
    qed
  qed
qed

theorem ci_nonpositive_denominator_fails_witness:
  "(- 2 :: real) \<le> 0 \<and> binomial_proportion_ci 1 (- 2) (5 / 100) = Inl ZeroDivisionError"
  using ci_nonpositive_denominator_fails [of "- 2" 1 "5 / 100"] by simp

section \<open>Properties of \<open>get_op_stats\<close>\<close>

lemma np_inf_zero [simp]: "np_inf 0 = NaN"
  by (simp add: np_inf_def)

lemma op_stats_row_expected:
  "op_stats_row (Num (real tn)) (Num (real fp)) (Num (real fn)) (Num (real tp))
    = expected_row tn fp fn tp"
proof -
  have sens: "np_div (np_mul (Num 100) (Num (real tp))) (np_add (Num (real tp)) (Num (real fn)))
      = pct_rate tp (tp + fn)"
    and spec: "np_div (np_mul (Num 100) (Num (real tn))) (np_add (Num (real tn)) (Num (real fp)))
      = pct_rate tn (tn + fp)"
    and ppv: "np_div (np_mul (Num 100) (Num (real tp))) (np_add (Num (real tp)) (Num (real fp)))
      = pct_rate tp (tp + fp)"
    and npv: "np_div (np_mul (Num 100) (Num (real tn))) (np_add (Num (real tn)) (Num (real fn)))
      = pct_rate tn (tn + fn)"
    by (auto simp: pct_rate_def simp flip: of_nat_add)
  have f1: "np_div (np_mul (Num 2) (np_mul (pct_rate tp (tp + fp)) (pct_rate tp (tp + fn))))
        (np_add (pct_rate tp (tp + fp)) (pct_rate tp (tp + fn)))
      = (if tp = 0 then NaN
         else Num (2 * ((100 * real tp / real (tp + fp)) * (100 * real tp / real (tp + fn)))
                   / (100 * real tp / real (tp + fp) + 100 * real tp / real (tp + fn))))"
  proof (cases "tp = 0")
    case True
    then show ?thesis by (simp add: pct_rate_def)
  next
    case False
    then have "0 < 100 * real tp / real (tp + fp) + 100 * real tp / real (tp + fn)"
      by (intro add_pos_pos divide_pos_pos) simp_all
    then show ?thesis using False by (simp add: pct_rate_def)
  qed
  have tot: "np_add (np_add (np_add (Num (real tp)) (Num (real fp))) (Num (real tn))) (Num (real fn))
      = Num (real (tp + fp + tn + fn))"
    by simp
  have ntp: "np_mul (np_div (np_mul (Num 100) (np_add (Num (real tp)) (Num (real fp))))
          (Num (real (tp + fp + tn + fn))))
        (np_div (pct_rate tp (tp + fp)) (Num 100))
      = (if tp + fp = 0 then NaN
         else Num (100 * real (tp + fp) / real (tp + fp + tn + fn)
                   * (100 * real tp / real (tp + fp) / 100)))"
    by (cases "tp + fp + tn + fn = 0") (auto simp: pct_rate_def simp flip: of_nat_add)
  have nfp: "np_mul (np_div (np_mul (Num 100) (np_add (Num (real tp)) (Num (real fp))))
          (Num (real (tp + fp + tn + fn))))
        (np_sub (Num 1) (np_div (pct_rate tp (tp + fp)) (Num 100)))
      = (if tp + fp = 0 then NaN
         else Num (100 * real (tp + fp) / real (tp + fp + tn + fn)
                   * (1 - 100 * real tp / real (tp + fp) / 100)))"
    by (cases "tp + fp + tn + fn = 0") (auto simp: pct_rate_def np_sub_def simp flip: of_nat_add)
  show ?thesis
    unfolding op_stats_row_def Let_def sens spec ppv npv f1 tot ntp nfp expected_row_def ..
qed

lemma confusion_matrix_shape:
  assumes "length y = length yhat"
  shows "\<exists>cm. confusion_matrix y yhat = Inr cm
    \<and> length cm = length (unique_labels y yhat)
    \<and> (\<forall>i<length cm. length (cm ! i) = length (unique_labels y yhat))"
  using assms unfolding confusion_matrix_def Let_def by simp

lemma cm_at_in_range:
  assumes "i < length cm" "j < length (cm ! i)"
  shows "cm_at cm i j = Inr (Num (real (cm ! i ! j)))"
  using assms by (simp add: cm_at_def)

lemma mask_filter_length:
  assumes "length y = length yhat"
  shows "length (filter snd (zip y m)) = length (filter snd (zip yhat m))"
  using assms
proof (induction y yhat arbitrary: m rule: list_induct2)
  case Nil
  then show ?case by simp
next
  case (Cons a y c yhat)
  then show ?case by (cases m) simp_all
qed

lemma subgroup_length:
  assumes "length y = length yhat"
  shows "length (subgroup idx i y) = length (subgroup idx i yhat)"
proof (cases idx)
  case None
  with assms show ?thesis by (simp add: subgroup_def)
next
  case (Some masks)
  with mask_filter_length [OF assms] show ?thesis
    by (simp add: subgroup_def)
qed


lemma subgroup_feeds_matrix:
  assumes "i < length y_all" "idx_fits idx i (y_all ! i)" "idx_fits idx i yhat"
  shows "(case idx of
              None \<Rightarrow>
                (case list_at y_all i of
                   Inl e \<Rightarrow> Inl e
                 | Inr y \<Rightarrow> confusion_matrix y yhat)
            | Some masks \<Rightarrow>
                (case list_at y_all i of
                   Inl e \<Rightarrow> Inl e
                 | Inr y \<Rightarrow>
                     (case list_at masks i of
                        Inl e \<Rightarrow> Inl e
                      | Inr msk \<Rightarrow>
                          (case mask_select y msk of
                             Inl e \<Rightarrow> Inl e
                           | Inr y_sub \<Rightarrow>
                               (case mask_select yhat msk of
                                  Inl e \<Rightarrow> Inl e
                                | Inr yhat_sub \<Rightarrow> confusion_matrix y_sub yhat_sub)))))
      = confusion_matrix (subgroup idx i (y_all ! i)) (subgroup idx i yhat)"
proof (cases idx)
  case None
  have "list_at y_all i = Inr (y_all ! i)"
    using assms(1) by (simp add: list_at_def)
  then show ?thesis
    unfolding None by (simp add: subgroup_def)
next
  case (Some masks)
  have y: "list_at y_all i = Inr (y_all ! i)"
    using assms(1) by (simp add: list_at_def)
  have m: "list_at masks i = Inr (masks ! i)"
    using assms(2) by (simp add: list_at_def idx_fits_def Some)
  have sy: "mask_select (y_all ! i) (masks ! i) = Inr (subgroup idx i (y_all ! i))"
    using assms(2) by (simp add: mask_select_def idx_fits_def subgroup_def Some)
  have sh: "mask_select yhat (masks ! i) = Inr (subgroup idx i yhat)"
    using assms(3) by (simp add: mask_select_def idx_fits_def subgroup_def Some)
  show ?thesis
    unfolding Some option.case y m sum.case sy sh ..
qed

lemma get_op_stats_row_expected:
  assumes "i < length y_all" "length (y_all ! i) = length yhat"
    and "idx_fits idx i (y_all ! i)" "idx_fits idx i yhat"
    and "2 \<le> length (unique_labels (subgroup idx i (y_all ! i)) (subgroup idx i yhat))"
  shows "\<exists>cm. confusion_matrix (subgroup idx i (y_all ! i)) (subgroup idx i yhat) = Inr cm
    \<and> get_op_stats_row y_all idx i yhat
        = Inr (expected_row (cm ! 0 ! 0) (cm ! 0 ! 1) (cm ! 1 ! 0) (cm ! 1 ! 1))"
proof -
  from confusion_matrix_shape [OF subgroup_length [OF assms(2)]] obtain cm
    where cm: "confusion_matrix (subgroup idx i (y_all ! i)) (subgroup idx i yhat) = Inr cm"
      and rows: "length cm = length (unique_labels (subgroup idx i (y_all ! i)) (subgroup idx i yhat))"
      and cols: "\<forall>k<length cm. length (cm ! k) = length (unique_labels (subgroup idx i (y_all ! i)) (subgroup idx i yhat))"
    by blast
  have r: "0 < length cm" "1 < length cm" using rows assms(5) by linarith+
  have c: "0 < length (cm ! 0)" "1 < length (cm ! 0)" "0 < length (cm ! 1)" "1 < length (cm ! 1)"
    using cols r rows by auto
  have at: "cm_at cm 0 0 = Inr (Num (real (cm ! 0 ! 0)))" "cm_at cm 0 1 = Inr (Num (real (cm ! 0 ! 1)))"
    "cm_at cm 1 0 = Inr (Num (real (cm ! 1 ! 0)))" "cm_at cm 1 1 = Inr (Num (real (cm ! 1 ! 1)))"
    using r c by (simp_all add: cm_at_in_range)
  have "get_op_stats_row y_all idx i yhat
      = Inr (expected_row (cm ! 0 ! 0) (cm ! 0 ! 1) (cm ! 1 ! 0) (cm ! 1 ! 1))"
    unfolding get_op_stats_row_def subgroup_feeds_matrix [OF assms(1,3,4)] cm sum.case at
    by (simp only: op_stats_row_expected)
  with cm show ?thesis by blast
qed

lemma get_op_stats_loop_rows:
  assumes "\<forall>k<length rest. get_op_stats_row y_all idx (i + k) (rest ! k) = Inr (f (i + k))"
    and "i + length rest \<le> length stats_all"
  shows "\<exists>out. get_op_stats_loop y_all idx i rest stats_all = Inr out
    \<and> length out = length stats_all
    \<and> (\<forall>k<length rest. out ! (i + k) = f (i + k))
    \<and> (\<forall>j<i. out ! j = stats_all ! j)"
  using assms
proof (induction rest arbitrary: i stats_all)
  case Nil
  then show ?case by simp
next
  case (Cons yhat rest)
  from Cons.prems(1) have "0 < length (yhat # rest)
      \<longrightarrow> get_op_stats_row y_all idx (i + 0) ((yhat # rest) ! 0) = Inr (f (i + 0))"
    by (rule spec)
  then have row: "get_op_stats_row y_all idx i yhat = Inr (f i)"
    by simp
  have "get_op_stats_row y_all idx (Suc i + k) (rest ! k) = Inr (f (Suc i + k))"
    if "k < length rest" for k
  proof -
    from Cons.prems(1) have "Suc k < length (yhat # rest)
        \<longrightarrow> get_op_stats_row y_all idx (i + Suc k) ((yhat # rest) ! Suc k) = Inr (f (i + Suc k))"
      by (rule spec)
    with that show ?thesis by simp
  qed
  then have "\<forall>k<length rest. get_op_stats_row y_all idx (Suc i + k) (rest ! k) = Inr (f (Suc i + k))"
    by blast
  moreover have "Suc i + length rest \<le> length (stats_all[i := f i])"
    using Cons.prems(2) by simp
  ultimately obtain out where out: "get_op_stats_loop y_all idx (Suc i) rest (stats_all[i := f i]) = Inr out"
    "length out = length (stats_all[i := f i])"
    "\<forall>k<length rest. out ! (Suc i + k) = f (Suc i + k)"
    "\<forall>j<Suc i. out ! j = (stats_all[i := f i]) ! j"
    using Cons.IH [of "Suc i" "stats_all[i := f i]"] by blast
  have i: "i < length stats_all" using Cons.prems(2) by simp
  have "out ! (i + k) = f (i + k)" if "k < length (yhat # rest)" for k
  proof (cases k)
    case 0
    with out(4) i show ?thesis by simp
  next
    case (Suc k')
    with that out(3) show ?thesis by simp
  qed
  moreover have "out ! j = stats_all ! j" if "j < i" for j
    using that out(4) by simp
  ultimately show ?case
    using out(1,2) row by simp
qed

text \<open>
  C5. Broadcast of a single target: for prediction vectors \<open>p1\<close>, \<open>p2\<close> and a single
  target array \<open>y\<close>, \<open>get_op_stats([p1, p2], y)\<close> equals
  \<open>get_op_stats([p1, p2], [y, y])\<close>, whatever \<open>idx\<close> is and also when both raise; the
  same holds for any number of prediction sets, with \<open>y\<close> repeated once per set.
\<close>

theorem get_op_stats_broadcast:
  "get_op_stats [p1, p2] (NumpyArray y) idx = get_op_stats [p1, p2] (PyList [y, y]) idx
   \<and> get_op_stats yhat_all (NumpyArray y) idx
       = get_op_stats yhat_all (PyList (replicate (length yhat_all) y)) idx"
proof -
  have "map (\<lambda>i. y) [0..<length yhat_all] = replicate (length yhat_all) y" for yhat_all :: "int list list"
    by (simp add: map_replicate_const)
  from this [of yhat_all] this [of "[p1, p2]"] show ?thesis
    unfolding get_op_stats_def Let_def targets.case by simp
qed


text \<open>
  C6, as the code has it. When a prediction set and its target together show a single
  label, scikit-learn's matrix is 1x1 and \<open>FP = cm[0,1]\<close> raises \<open>IndexError\<close>: here
  a subgroup with outcome 0 only and predictions 0 only.
\<close>

theorem get_op_stats_degenerate_counterexample:
  "get_op_stats [[0, 0]] (NumpyArray [0, 0]) None = Inl IndexError"
  by (simp add: get_op_stats_def get_op_stats_row_def list_at_def confusion_matrix_def
      unique_labels_def cm_at_def)


text \<open>
  C6 (amended). Whenever every prediction set has the length of its target, the masks
  of \<open>idx\<close> (if given) fit, and every prediction set and its target (restricted to the
  subgroup) together show at least two labels, \<open>get_op_stats\<close> does not raise: it
  returns one row per prediction set, holding the four entries of its confusion matrix
  and the seven derived values, where a value whose denominator is zero is \<open>nan\<close> and
  every other value is the finite number its formula gives.
\<close>

theorem get_op_stats_undefined_rates_are_nan:
  assumes "length y_all = length yhat_all"
    and "\<forall>i<length yhat_all. length (y_all ! i) = length (yhat_all ! i)
          \<and> idx_fits idx i (y_all ! i)
          \<and> 2 \<le> length (unique_labels (subgroup idx i (y_all ! i)) (subgroup idx i (yhat_all ! i)))"
  shows "\<exists>stats_all. get_op_stats yhat_all (PyList y_all) idx = Inr stats_all
    \<and> length stats_all = length yhat_all
    \<and> (\<forall>i<length yhat_all. \<exists>cm.
          confusion_matrix (subgroup idx i (y_all ! i)) (subgroup idx i (yhat_all ! i)) = Inr cm
          \<and> stats_all ! i = expected_row (cm ! 0 ! 0) (cm ! 0 ! 1) (cm ! 1 ! 0) (cm ! 1 ! 1))"
proof -
  define f where "f i = (case confusion_matrix (subgroup idx i (y_all ! i)) (subgroup idx i (yhat_all ! i)) of
      Inl e \<Rightarrow> [] | Inr cm \<Rightarrow> expected_row (cm ! 0 ! 0) (cm ! 0 ! 1) (cm ! 1 ! 0) (cm ! 1 ! 1))" for i
  have row: "\<exists>cm. confusion_matrix (subgroup idx i (y_all ! i)) (subgroup idx i (yhat_all ! i)) = Inr cm
      \<and> get_op_stats_row y_all idx i (yhat_all ! i) = Inr (f i)
      \<and> f i = expected_row (cm ! 0 ! 0) (cm ! 0 ! 1) (cm ! 1 ! 0) (cm ! 1 ! 1)"
    if "i < length yhat_all" for i
  proof -
    from assms(2) that have len: "length (y_all ! i) = length (yhat_all ! i)"
      and fits: "idx_fits idx i (y_all ! i)"
      and two: "2 \<le> length (unique_labels (subgroup idx i (y_all ! i)) (subgroup idx i (yhat_all ! i)))"
      by blast+
    from fits len have fits': "idx_fits idx i (yhat_all ! i)"
      by (simp add: idx_fits_def split: option.splits)
    from that assms(1) have "i < length y_all" by simp
    from get_op_stats_row_expected [OF this len fits fits' two] show ?thesis
      by (auto simp: f_def)
  qed
  have "\<forall>k<length yhat_all. get_op_stats_row y_all idx (0 + k) (yhat_all ! k) = Inr (f (0 + k))"
    using row by auto
  moreover have "0 + length yhat_all \<le> length (replicate (length yhat_all) (replicate 11 (Num 0)))"
    by simp
  ultimately obtain out where out:
    "get_op_stats_loop y_all idx 0 yhat_all (replicate (length yhat_all) (replicate 11 (Num 0))) = Inr out"
    "length out = length (replicate (length yhat_all) (replicate 11 (Num 0)))"
    "\<forall>k<length yhat_all. out ! (0 + k) = f (0 + k)"
    using get_op_stats_loop_rows [of yhat_all y_all idx 0 f "replicate (length yhat_all) (replicate 11 (Num 0))"]
    by blast
  have "get_op_stats yhat_all (PyList y_all) idx = Inr out"
    unfolding get_op_stats_def Let_def targets.case by (rule out(1))
  moreover have "length out = length yhat_all"
    using out(2) by simp
  moreover have "\<exists>cm. confusion_matrix (subgroup idx i (y_all ! i)) (subgroup idx i (yhat_all ! i)) = Inr cm
      \<and> out ! i = expected_row (cm ! 0 ! 0) (cm ! 0 ! 1) (cm ! 1 ! 0) (cm ! 1 ! 1)"
    if "i < length yhat_all" for i
    using row [OF that] out(3) that by auto
  ultimately show ?thesis by blast
qed

theorem get_op_stats_undefined_rates_are_nan_witness:
  "get_op_stats [[0, 0]] (PyList [[0, 1]]) None
    = Inr [[Num 1, Num 0, Num 1, Num 0, Num 0, Num 100, NaN, Num 50, NaN, NaN, NaN]]"
proof -
  have labels: "unique_labels [0, 1] [0, 0] = [0, 1]"
    by (simp add: unique_labels_def)
  have cm: "confusion_matrix [0, 1] [0, 0] = Inr [[1, 0], [1, 0]]"
    by (simp add: confusion_matrix_def labels)
  have "\<forall>i<length [[0, 0 :: int]]. length ([[0, 1]] ! i) = length ([[0, 0 :: int]] ! i)
      \<and> idx_fits None i ([[0, 1]] ! i)
      \<and> 2 \<le> length (unique_labels (subgroup None i ([[0, 1]] ! i)) (subgroup None i ([[0, 0]] ! i)))"
    by (simp add: idx_fits_def subgroup_def labels)
  from get_op_stats_undefined_rates_are_nan [OF _ this]
  obtain stats_all where res: "get_op_stats [[0, 0]] (PyList [[0, 1]]) None = Inr stats_all"
    and len: "length stats_all = 1"
    and row: "\<exists>cm. confusion_matrix (subgroup None 0 ([[0, 1]] ! 0)) (subgroup None 0 ([[0, 0]] ! 0)) = Inr cm
      \<and> stats_all ! 0 = expected_row (cm ! 0 ! 0) (cm ! 0 ! 1) (cm ! 1 ! 0) (cm ! 1 ! 1)"
    by auto
  from row have "stats_all ! 0 = expected_row 1 0 1 0"
    by (simp add: subgroup_def cm)
  then have "stats_all ! 0 = [Num 1, Num 0, Num 1, Num 0, Num 0, Num 100, NaN, Num 50, NaN, NaN, NaN]"
    by (simp add: expected_row_def pct_rate_def)
  moreover from len obtain r where "stats_all = [r]"
    by (cases stats_all) auto
  ultimately show ?thesis
    using res by simp
qed

section \<open>Properties of \<open>cronbach_alpha\<close> and \<open>cronbach_alpha_bootstrap\<close>\<close>

lemma bootstrap_loop_values:
  assumes "0 < N"
    and "\<forall>k<n. cronbach_alpha (select_columns X (randint rng (b + k) N)) = Inr (f (b + k))"
    and "b + n \<le> length alpha"
  shows "\<exists>out. bootstrap_loop X rng N b n alpha = Inr out
    \<and> length out = length alpha
    \<and> (\<forall>k<n. out ! (b + k) = f (b + k))
    \<and> (\<forall>j<b. out ! j = alpha ! j)"
  using assms(2,3)
proof (induction n arbitrary: b alpha)
  case 0
  then show ?case by simp
next
  case (Suc n)
  from Suc.prems(1) have "0 < Suc n \<longrightarrow> cronbach_alpha (select_columns X (randint rng (b + 0) N)) = Inr (f (b + 0))"
    by (rule spec)
  then have first: "cronbach_alpha (select_columns X (randint rng b N)) = Inr (f b)"
    by simp
  have "cronbach_alpha (select_columns X (randint rng (Suc b + k) N)) = Inr (f (Suc b + k))"
    if "k < n" for k
  proof -
    from Suc.prems(1) have "Suc k < Suc n
        \<longrightarrow> cronbach_alpha (select_columns X (randint rng (b + Suc k) N)) = Inr (f (b + Suc k))"
      by (rule spec)
    with that show ?thesis by simp
  qed
  then have "\<forall>k<n. cronbach_alpha (select_columns X (randint rng (Suc b + k) N)) = Inr (f (Suc b + k))"
    by blast
  moreover have "Suc b + n \<le> length (alpha[b := f b])"
    using Suc.prems(2) by simp
  ultimately obtain out where out: "bootstrap_loop X rng N (Suc b) n (alpha[b := f b]) = Inr out"
    "length out = length (alpha[b := f b])"
    "\<forall>k<n. out ! (Suc b + k) = f (Suc b + k)"
    "\<forall>j<Suc b. out ! j = (alpha[b := f b]) ! j"
    using Suc.IH [of "Suc b" "alpha[b := f b]"] by blast
  have b: "b < length alpha" using Suc.prems(2) by simp
  have "out ! (b + k) = f (b + k)" if "k < Suc n" for k
  proof (cases k)
    case 0
    with out(4) b show ?thesis by simp
  next
    case (Suc k')
    with that out(3) show ?thesis by simp
  qed
  moreover have "out ! j = alpha ! j" if "j < b" for j
    using that out(4) by simp
  ultimately show ?case
    using out(1,2) first assms(1) by simp
qed

lemma cronbach_alpha_total:
  assumes "2 \<le> length X"
  shows "\<exists>a. cronbach_alpha X = Inr a"
proof -
  from assms have "real (length X) - 1 \<noteq> 0" "X \<noteq> []" by auto
  then show ?thesis
    by (simp add: cronbach_alpha_def fdiv_def)
qed

lemma bootstrap_alphas:
  assumes "2 \<le> length X" "0 < length (hd X)"
  shows "\<exists>alphas. bootstrap_loop X rng (length (hd X)) 0 B (replicate B (Num 0)) = Inr alphas
    \<and> length alphas = B
    \<and> (\<forall>b<B. cronbach_alpha (select_columns X (randint rng b (length (hd X)))) = Inr (alphas ! b))"
proof -
  define f where "f b = (case cronbach_alpha (select_columns X (randint rng b (length (hd X)))) of
      Inl e \<Rightarrow> NaN | Inr a \<Rightarrow> a)" for b
  have val: "cronbach_alpha (select_columns X (randint rng b (length (hd X)))) = Inr (f b)" for b
  proof -
    have "2 \<le> length (select_columns X (randint rng b (length (hd X))))"
      using assms(1) by (simp add: select_columns_def)
    from cronbach_alpha_total [OF this] show ?thesis
      by (auto simp: f_def)
  qed
  have "\<forall>k<B. cronbach_alpha (select_columns X (randint rng (0 + k) (length (hd X)))) = Inr (f (0 + k))"
    using val by simp
  moreover have "0 + B \<le> length (replicate B (Num 0 :: npfloat))" by simp
  ultimately obtain out where out:
    "bootstrap_loop X rng (length (hd X)) 0 B (replicate B (Num 0)) = Inr out"
    "length out = length (replicate B (Num 0 :: npfloat))"
    "\<forall>k<B. out ! (0 + k) = f (0 + k)"
    using bootstrap_loop_values [OF assms(2), of B X rng 0 f "replicate B (Num 0)"] by blast
  have "cronbach_alpha (select_columns X (randint rng b (length (hd X)))) = Inr (out ! b)"
    if "b < B" for b
    using val [of b] out(3) that by simp
  with out(1,2) show ?thesis by auto
qed

lemma np_percentile_total:
  assumes "a \<noteq> []"
  shows "\<exists>r. np_percentile a q = Inr r"
proof (cases "NaN \<in> set a")
  case True
  with assms show ?thesis by (simp add: np_percentile_def)
next
  case False
  with assms show ?thesis by (simp add: np_percentile_def Let_def)
qed


text \<open>
  Two identical rows do not always give a bootstrap interval of width zero. Here the
  rows are \<open>[0, 1]\<close> and both resamples draw subject 0 twice: a resample that repeats
  one subject has variance 0 in every row and in the sums, its alpha is \<open>0/0 = nan\<close>,
  and the percentiles of the bootstrap values are \<open>nan\<close>, while the point estimate
  is 1.
\<close>

lemma cronbach_alpha_bootstrap_constant_resample:
  "cronbach_alpha_bootstrap [[0, 1], [0, 1]] (Some 2) (\<lambda>b j. 0) = Inr (Num 1, NaN, NaN)"
proof -
  have draw: "randint (\<lambda>b j. 0) b 2 = [0, 0]" for b
    by (simp add: randint_def numeral_2_eq_2)
  have resampled: "cronbach_alpha (select_columns [[0, 1], [0, 1]] [0, 0]) = Inr NaN"
    by (simp add: cronbach_alpha_def fdiv_def select_columns_def np_sum_def np_var_ddof1_def
        col_sums_def np_sub_def numeral_2_eq_2)
  have count: "bootstrap_count (Some 2) = Suc (Suc 0)"
    by (simp add: bootstrap_count_def)
  have cols: "length (hd [[0, 1], [0, 1 :: real]]) = 2"
    by simp
  have loop: "bootstrap_loop [[0, 1], [0, 1]] (\<lambda>b j. 0) 2 0 (Suc (Suc 0))
      (replicate (Suc (Suc 0)) (Num 0)) = Inr [NaN, NaN]"
    by (simp add: draw resampled)
  have orig: "cronbach_alpha [[0, 1], [0, 1]] = Inr (Num 1)"
    by (simp add: cronbach_alpha_def fdiv_def np_sum_def np_var_ddof1_def col_sums_def
        np_sub_def numeral_2_eq_2 power2_eq_square)
  have pct: "np_percentile [NaN, NaN] q = Inr NaN" for q
    by (simp add: np_percentile_def)
  show ?thesis
    unfolding cronbach_alpha_bootstrap_def Let_def count cols loop sum.case pct orig
    by simp
qed

text \<open>
  C8, as the code has it. \<open>cronbach_alpha_bootstrap\<close> is declared with \<open>B=1000\<close>:
  left to its default it resamples 1000 times, not 2000.
\<close>

theorem cronbach_alpha_default_count_counterexample:
  "bootstrap_count None \<noteq> 2000"
  by (simp add: bootstrap_count_def)


text \<open>
  C8 (amended). The bootstrap resamples \<open>B\<close> times, where \<open>B\<close> is 1000 by default
  and 2000 in the call \<open>print_auc_table\<close> makes. For a matrix of at least two rows and
  at least one subject and \<open>B > 0\<close> it returns the point estimate computed on the
  original matrix and, as the interval, the 5th and 95th percentiles of the \<open>B\<close>
  bootstrap values; the \<open>b\<close>-th of them is \<open>cronbach_alpha\<close> of the matrix whose
  columns are \<open>N\<close> subject indices below \<open>N\<close>, drawn independently (with
  replacement).
\<close>

theorem cronbach_alpha_bootstrap_percentile:
  assumes "2 \<le> length X" "0 < length (hd X)" "0 < bootstrap_count B_arg" "length x1 = length x2"
  shows "bootstrap_count None = 1000
    \<and> print_auc_table_alpha x1 x2 rng = cronbach_alpha_bootstrap [x1, x2] (Some 2000) rng
    \<and> bootstrap_count (Some 2000) = 2000
    \<and> (\<exists>alpha ci_low ci_high alphas.
          cronbach_alpha_bootstrap X B_arg rng = Inr (alpha, ci_low, ci_high)
          \<and> cronbach_alpha X = Inr alpha
          \<and> length alphas = bootstrap_count B_arg
          \<and> (\<forall>b<bootstrap_count B_arg.
                cronbach_alpha (select_columns X (randint rng b (length (hd X)))) = Inr (alphas ! b)
                \<and> length (randint rng b (length (hd X))) = length (hd X)
                \<and> (\<forall>j<length (hd X). randint rng b (length (hd X)) ! j < length (hd X)))
          \<and> np_percentile alphas 5 = Inr ci_low
          \<and> np_percentile alphas 95 = Inr ci_high)"
proof -
  define B where "B = bootstrap_count B_arg"
  from bootstrap_alphas [OF assms(1,2), of rng B] obtain alphas
    where loop: "bootstrap_loop X rng (length (hd X)) 0 B (replicate B (Num 0)) = Inr alphas"
      and len: "length alphas = B"
      and vals: "\<forall>b<B. cronbach_alpha (select_columns X (randint rng b (length (hd X)))) = Inr (alphas ! b)"
    by blast
  from cronbach_alpha_total [OF assms(1)] obtain alpha where alpha: "cronbach_alpha X = Inr alpha"
    by blast
  have ne: "alphas \<noteq> []" using len assms(3) by (auto simp: B_def)
  obtain ci_low where lo: "np_percentile alphas 5 = Inr ci_low"
    using np_percentile_total [OF ne] by blast
  obtain ci_high where hi: "np_percentile alphas 95 = Inr ci_high"
    using np_percentile_total [OF ne] by blast
  have X: "X \<noteq> []" using assms(1) by auto
  have res: "cronbach_alpha_bootstrap X B_arg rng = Inr (alpha, ci_low, ci_high)"
    unfolding cronbach_alpha_bootstrap_def Let_def B_def [symmetric]
    using X by (simp add: loop lo hi alpha)
  have draws: "length (randint rng b (length (hd X))) = length (hd X)
      \<and> (\<forall>j<length (hd X). randint rng b (length (hd X)) ! j < length (hd X))" for b
    using assms(2) by (simp add: randint_def)
  have "\<exists>alpha ci_low ci_high alphas.
          cronbach_alpha_bootstrap X B_arg rng = Inr (alpha, ci_low, ci_high)
          \<and> cronbach_alpha X = Inr alpha
          \<and> length alphas = bootstrap_count B_arg
          \<and> (\<forall>b<bootstrap_count B_arg.
                cronbach_alpha (select_columns X (randint rng b (length (hd X)))) = Inr (alphas ! b)
                \<and> length (randint rng b (length (hd X))) = length (hd X)
                \<and> (\<forall>j<length (hd X). randint rng b (length (hd X)) ! j < length (hd X)))
          \<and> np_percentile alphas 5 = Inr ci_low
          \<and> np_percentile alphas 95 = Inr ci_high"
    using res alpha len vals draws lo hi unfolding B_def by blast
  then show ?thesis
    using assms(4) by (simp add: bootstrap_count_def print_auc_table_alpha_def)
qed

theorem cronbach_alpha_bootstrap_percentile_witness:
  "bootstrap_count None = 1000
    \<and> print_auc_table_alpha [0, 1] [0, 1] (\<lambda>b j. j)
        = cronbach_alpha_bootstrap [[0, 1], [0, 1]] (Some 2000) (\<lambda>b j. j)
    \<and> bootstrap_count (Some 2000) = 2000
    \<and> (\<exists>alpha ci_low ci_high alphas.
          cronbach_alpha_bootstrap [[0, 1], [0, 1]] (Some 3) (\<lambda>b j. j) = Inr (alpha, ci_low, ci_high)
          \<and> cronbach_alpha [[0, 1], [0, 1]] = Inr alpha
          \<and> length alphas = bootstrap_count (Some 3)
          \<and> (\<forall>b<bootstrap_count (Some 3).
                cronbach_alpha (select_columns [[0, 1], [0, 1]]
                    (randint (\<lambda>b j. j) b (length (hd [[0, 1], [0, 1 :: real]])))) = Inr (alphas ! b)
                \<and> length (randint (\<lambda>b j. j) b (length (hd [[0, 1], [0, 1 :: real]])))
                    = length (hd [[0, 1], [0, 1 :: real]])
                \<and> (\<forall>j<length (hd [[0, 1], [0, 1 :: real]]).
                      randint (\<lambda>b j. j) b (length (hd [[0, 1], [0, 1 :: real]])) ! j
                        < length (hd [[0, 1], [0, 1 :: real]])))
          \<and> np_percentile alphas 5 = Inr ci_low
          \<and> np_percentile alphas 95 = Inr ci_high)"
proof -
  have "2 \<le> length [[0, 1], [0, 1 :: real]]" "0 < length (hd [[0, 1], [0, 1 :: real]])"
    "0 < bootstrap_count (Some 3)" "length [0, 1 :: real] = length [0, 1 :: real]"
    by (simp_all add: bootstrap_count_def)
  from cronbach_alpha_bootstrap_percentile [OF this, of "\<lambda>b j. j"] show ?thesis .
qed

section \<open>Properties of \<open>print_stats_to_file\<close>\<close>

lemma fs_write_handles [simp]: "open_handles (fs_write path s w) = open_handles w"
  by (simp add: fs_write_def)

lemma fs_open_handles [simp]: "open_handles (fs_open path w) = path # open_handles w"
  by (simp add: fs_open_def)

lemma stats_names_columns: "[0..<length stats_names] = [0, 1, 2, 3, 4, 5, 6, 7, 8, 9, 10, 11]"
  by (simp add: stats_names_def upt_rec)

lemma write_cells_first_six:
  "\<exists>e w'. write_cells fmt filename stats_all ci i (0 # 1 # 2 # 3 # 4 # 5 # ns) w = (Some e, w')
    \<and> open_handles w' = open_handles w"
  by (auto split: sum.splits)

lemma write_rows_raises:
  assumes "yhat_names \<noteq> []"
  shows "\<exists>e w'. write_rows fmt filename stats_all ci i yhat_names w = (Some e, w')
    \<and> open_handles w' = open_handles w"
proof -
  from assms obtain yhat_name rest where names: "yhat_names = yhat_name # rest"
    by (cases yhat_names) auto
  from write_cells_first_six [of fmt filename stats_all ci i "[6, 7, 8, 9, 10, 11]"
      "fs_write filename yhat_name w"]
  obtain e w' where "write_cells fmt filename stats_all ci i [0..<length stats_names]
      (fs_write filename yhat_name w) = (Some e, w')" "open_handles w' = open_handles w"
    unfolding stats_names_columns by auto
  then show ?thesis
    unfolding names by simp
qed

lemma header_handles:
  "open_handles (fold (\<lambda>stats_name. fs_write filename (tab @ stats_name)) names w) = open_handles w"
  by (induction names arbitrary: w) simp_all

lemma print_stats_to_file_leaks_handle:
  assumes "yhat_names \<noteq> []"
  shows "\<exists>e w'. print_stats_to_file fmt filename yhat_names stats_all w = (Some e, w')
    \<and> filename \<in> set (open_handles w')"
proof (cases "derive_ci stats_all 0 (length stats_all) (map (map (\<lambda>x. (0, 0))) stats_all)")
  case (Inl e)
  then show ?thesis
    by (simp add: print_stats_to_file_def)
next
  case (Inr ci)
  define w4 where "w4 = fs_write filename newline
      (fold (\<lambda>stats_name. fs_write filename (tab @ stats_name)) stats_names
        (fs_write filename ''Subgroup'' (fs_open filename w)))"
  have open4: "open_handles w4 = filename # open_handles w"
    by (simp add: w4_def header_handles)
  from write_rows_raises [OF assms, of fmt filename stats_all ci 0 w4] obtain e w'
    where rows: "write_rows fmt filename stats_all ci 0 yhat_names w4 = (Some e, w')"
      and "open_handles w' = open_handles w4"
    by blast
  with open4 have "filename \<in> set (open_handles w')" by simp
  moreover have "print_stats_to_file fmt filename yhat_names stats_all w = (Some e, w')"
    unfolding print_stats_to_file_def Let_def Inr sum.case w4_def [symmetric] rows by simp
  ultimately show ?thesis by blast
qed

text \<open>
  When the interval solver fails (here \<open>TP + FN = 0\<close>, so the first interval divides
  by zero), the function ends right after \<open>open\<close>: the file is truncated, nothing is
  written and the handle stays open.
\<close>

lemma print_stats_to_file_solver_failure:
  "print_stats_to_file fmt filename yhat_names [[2, 0, 0, 0, 0, 100, 0, 100, 0, 0, 0]] w
    = (Some ZeroDivisionError, fs_open filename w)"
proof -
  have "store_ci ci 0 4 0 0 = Inl ZeroDivisionError" for ci
    by (simp add: store_ci_def binomial_proportion_ci_def fdiv_def)
  then have "derive_ci [[2, 0, 0, 0, 0, 100, 0, 100, 0, 0, 0]] 0 (Suc 0) ci = Inl ZeroDivisionError" for ci
    by (simp add: tbl_at_def)
  then show ?thesis
    by (simp add: print_stats_to_file_def)
qed

lemma store_ci_valid:
  assumes "0 \<le> a" "a \<le> b" "0 < b" "i < length ci" "n < length (ci ! i)"
  shows "\<exists>interval. store_ci ci i n a b = Inr (ci[i := (ci ! i)[n := interval]])"
proof -
  from binomial_proportion_ci_valid [OF assms(1-3), of "5 / 100"] obtain low high
    where "binomial_proportion_ci a b (5 / 100) = Inr (low, high)"
    by blast
  then have "store_ci ci i n a b = Inr (ci[i := (ci ! i)[n := (low, high)]])"
    using assms(4,5) by (simp add: store_ci_def tbl_set_def)
  then show ?thesis ..
qed

lemma derive_ci_balanced_row:
  "\<exists>c4 c5 c6 c7. derive_ci [[1, 1, 1, 1, 50, 50, 50, 50, 50, 50, 50]] 0 1
      [[(0, 0), (0, 0), (0, 0), (0, 0), (0, 0), (0, 0), (0, 0), (0, 0), (0, 0), (0, 0), (0, 0)]]
    = Inr [[(0, 0), (0, 0), (0, 0), (0, 0), c4, c5, c6, c7, (0, 0), (0, 0), (0, 0)]]"
proof -
  have valid: "(0::real) \<le> 1" "(1::real) \<le> 2" "(0::real) < 2"
    by simp_all
  define ci0 :: "(real \<times> real) list list"
    where "ci0 = [[(0, 0), (0, 0), (0, 0), (0, 0), (0, 0), (0, 0), (0, 0), (0, 0), (0, 0), (0, 0), (0, 0)]]"
  from store_ci_valid [OF valid, of 0 ci0 4] obtain c4
    where s4: "store_ci ci0 0 4 1 2 = Inr (ci0[0 := (ci0 ! 0)[4 := c4]])"
    by (auto simp: ci0_def)
  define ci4 where "ci4 = ci0[0 := (ci0 ! 0)[4 := c4]]"
  from store_ci_valid [OF valid, of 0 ci4 5] obtain c5
    where s5: "store_ci ci4 0 5 1 2 = Inr (ci4[0 := (ci4 ! 0)[5 := c5]])"
    by (auto simp: ci4_def ci0_def)
  define ci5 where "ci5 = ci4[0 := (ci4 ! 0)[5 := c5]]"
  from store_ci_valid [OF valid, of 0 ci5 6] obtain c6
    where s6: "store_ci ci5 0 6 1 2 = Inr (ci5[0 := (ci5 ! 0)[6 := c6]])"
    by (auto simp: ci5_def ci4_def ci0_def)
  define ci6 where "ci6 = ci5[0 := (ci5 ! 0)[6 := c6]]"
  from store_ci_valid [OF valid, of 0 ci6 7] obtain c7
    where s7: "store_ci ci6 0 7 1 2 = Inr (ci6[0 := (ci6 ! 0)[7 := c7]])"
    by (auto simp: ci6_def ci5_def ci4_def ci0_def)
  have final: "ci6[0 := (ci6 ! 0)[7 := c7]]
      = [[(0, 0), (0, 0), (0, 0), (0, 0), c4, c5, c6, c7, (0, 0), (0, 0), (0, 0)]]"
    by (simp add: ci6_def ci5_def ci4_def ci0_def)
  have "derive_ci [[1, 1, 1, 1, 50, 50, 50, 50, 50, 50, 50]] 0 (Suc 0) ci0
      = Inr (ci6[0 := (ci6 ! 0)[7 := c7]])"
    by (simp add: tbl_at_def s4 s5 s6 s7
        ci4_def [symmetric] ci5_def [symmetric] ci6_def [symmetric])
  then show ?thesis
    unfolding final ci0_def by auto
qed


text \<open>
  C9, as the code has it. On the table of one prediction set with
  \<open>TN = FP = FN = TP = 1\<close> and all rates 50, and one prediction name, the function
  truncates the file, writes the header row, the name and the first five cells, and
  then raises \<open>TypeError\<close> at the first cell that carries an interval: the data row is
  never completed, no interval is ever written, and the handle is still open when the
  call ends. \<open>print_stats_to_file_leaks_handle\<close> shows the same for every table and
  every non-empty list of names.
\<close>

theorem print_stats_to_file_failing_input:
  "print_stats_to_file fmt ''stats.tsv'' [''sofa''] [[1, 1, 1, 1, 50, 50, 50, 50, 50, 50, 50]]
      \<lparr>files = Map.empty, open_handles = []\<rparr>
    = (Some TypeError,
       \<lparr>files = [''stats.tsv'' \<mapsto>
            ''Subgroup'' @ tab @ ''TN'' @ tab @ ''FP'' @ tab @ ''FN'' @ tab @ ''TP'' @ tab @ ''N''
            @ tab @ ''Sens'' @ tab @ ''Spec'' @ tab @ ''PPV'' @ tab @ ''NPV'' @ tab @ ''F1''
            @ tab @ ''NTP'' @ tab @ ''NFP'' @ newline
            @ ''sofa'' @ tab @ fmt ''%10.0f'' 1 @ tab @ fmt ''%10.0f'' 1 @ tab @ fmt ''%10.0f'' 1
            @ tab @ fmt ''%10.0f'' 1 @ tab @ fmt ''%10.0f'' 50],
        open_handles = [''stats.tsv'']\<rparr>)"
proof -
  from derive_ci_balanced_row obtain c4 c5 c6 c7
    where ci: "derive_ci [[1, 1, 1, 1, 50, 50, 50, 50, 50, 50, 50]] 0 1
        [[(0, 0), (0, 0), (0, 0), (0, 0), (0, 0), (0, 0), (0, 0), (0, 0), (0, 0), (0, 0), (0, 0)]]
      = Inr [[(0, 0), (0, 0), (0, 0), (0, 0), c4, c5, c6, c7, (0, 0), (0, 0), (0, 0)]]"
    by blast
  have len: "length [[1, 1, 1, 1, 50, 50, 50, 50, 50, 50, 50 :: real]] = 1"
    by simp
  have zeros: "map (map (\<lambda>x. (0, 0))) [[1, 1, 1, 1, 50, 50, 50, 50, 50, 50, 50 :: real]]
      = [[(0, 0), (0, 0), (0, 0), (0, 0), (0, 0), (0, 0), (0, 0), (0, 0), (0, 0), (0, 0), (0 :: real, 0 :: real)]]"
    by simp
  show ?thesis
    unfolding print_stats_to_file_def Let_def len zeros ci sum.case
    by (simp add: stats_names_columns tbl_at_def fs_open_def fs_write_def stats_names_def)
qed

end
